theory Spec2Isabelle
  imports Main "HOL-Library.Word"
begin

unbundle bit_operations_syntax

section \<open>Go values: bytes, words, slices and panics\<close>

text \<open>
  The repository is Go. A \<^verbatim>\<open>byte\<close> is an 8-bit word, \<^verbatim>\<open>uint32\<close> a 32-bit word and
  \<^verbatim>\<open>uint64\<close> a 64-bit word; their arithmetic wraps around. The contents of a slice
  or of an array are a list. A run-time panic of the source (an index out of range, the
  explicit \<^verbatim>\<open>panic(...)\<close> calls of the conversion helpers, a negative length given to
  \<^verbatim>\<open>make\<close>) is a value: every function that can panic returns \<open>panic + 'a\<close>.
\<close>

type_synonym byte = "8 word"
type_synonym u32 = "32 word"
type_synonym u64 = "64 word"

datatype panic = IndexOutOfRange | SliceBoundsOutOfRange | LengthMismatch | MakeLenOutOfRange

definition rbind :: "panic + 'a \<Rightarrow> ('a \<Rightarrow> panic + 'b) \<Rightarrow> panic + 'b" where
  "rbind m f = (case m of Inl e \<Rightarrow> Inl e | Inr x \<Rightarrow> f x)"

text \<open>\<^verbatim>\<open>xs[i]\<close> read and \<^verbatim>\<open>xs[i] = v\<close> on a slice, with Go's bounds check.\<close>

definition slice_get :: "'a list \<Rightarrow> nat \<Rightarrow> panic + 'a" where
  "slice_get xs i = (if i < length xs then Inr (xs ! i) else Inl IndexOutOfRange)"

definition slice_set :: "'a list \<Rightarrow> nat \<Rightarrow> 'a \<Rightarrow> panic + 'a list" where
  "slice_set xs i v = (if i < length xs then Inr (xs[i := v]) else Inl IndexOutOfRange)"

text \<open>
  \<^verbatim>\<open>for i := a; i < b; i++ { body }\<close> where the body neither assigns \<open>i\<close> nor changes
  the bound \<open>b\<close>: the state is threaded through the iterations and the first panic
  ends the loop.
\<close>

function for_range :: "nat \<Rightarrow> nat \<Rightarrow> (nat \<Rightarrow> 's \<Rightarrow> panic + 's) \<Rightarrow> 's \<Rightarrow> panic + 's" where
  "for_range i b body s =
     (if i < b
      then (case body i s of Inl e \<Rightarrow> Inl e | Inr s' \<Rightarrow> for_range (Suc i) b body s')
      else Inr s)"
  by pat_completeness auto
termination
  by (relation "measure (\<lambda>(i, b, body, s). b - i)") auto

section \<open>src/sha2/sha2.go\<close>

subsection \<open>conv8to32 and conv32to8\<close>

definition conv8to32_body :: "byte list \<Rightarrow> nat \<Rightarrow> u32 list \<Rightarrow> panic + u32 list" where
  "conv8to32_body src i dst =
     rbind (slice_get src (i * 4 + 0)) (\<lambda>b0.
     rbind (slice_get src (i * 4 + 1)) (\<lambda>b1.
     rbind (slice_get src (i * 4 + 2)) (\<lambda>b2.
     rbind (slice_get src (i * 4 + 3)) (\<lambda>b3.
       slice_set dst i
         (push_bit 24 (ucast b0 :: u32) OR push_bit 16 (ucast b1 :: u32) OR
          push_bit 8 (ucast b2 :: u32) OR push_bit 0 (ucast b3 :: u32))))))"

definition conv8to32 :: "u32 list \<Rightarrow> byte list \<Rightarrow> panic + u32 list" where
  "conv8to32 dst src =
     (if length src \<noteq> 4 * length dst then Inl LengthMismatch
      else for_range 0 (length dst) (conv8to32_body src) dst)"

definition conv32to8_body :: "u32 list \<Rightarrow> nat \<Rightarrow> byte list \<Rightarrow> panic + byte list" where
  "conv32to8_body src i dst =
     rbind (slice_get src i) (\<lambda>x.
     rbind (slice_set dst (i * 4 + 0) (ucast (drop_bit 24 x) :: byte)) (\<lambda>dst.
     rbind (slice_set dst (i * 4 + 1) (ucast (drop_bit 16 x) :: byte)) (\<lambda>dst.
     rbind (slice_set dst (i * 4 + 2) (ucast (drop_bit 8 x) :: byte)) (\<lambda>dst.
       slice_set dst (i * 4 + 3) (ucast (drop_bit 0 x) :: byte)))))"

definition conv32to8 :: "byte list \<Rightarrow> u32 list \<Rightarrow> panic + byte list" where
  "conv32to8 dst src =
     (if length dst \<noteq> 4 * length src then Inl LengthMismatch
      else for_range 0 (length src) (conv32to8_body src) dst)"

subsection \<open>pad512\<close>

text \<open>
  \<^verbatim>\<open>n\<close>, \<^verbatim>\<open>pad\<close> and \<^verbatim>\<open>end\<close> are \<^verbatim>\<open>uint64\<close>. \<^verbatim>\<open>append\<close> returns a slice holding the old
  contents followed by \<^verbatim>\<open>pad\<close> zero bytes (whether it reuses the caller's backing array
  is the subject of the store model further down).
\<close>

definition pad512 :: "byte list \<Rightarrow> panic + byte list" where
  "pad512 data =
     (let n = (of_nat (length data) :: u64);
          pad = 64 - (n mod 64);
          pad = (if pad < 9 then pad + 64 else pad);
          data = data @ replicate (unat pad) (0 :: byte);
          end = n + pad - 1;
          n8 = n * 8
      in
        rbind (slice_set data (unat n) 0x80) (\<lambda>data.
        rbind (slice_set data (unat (end - 7)) (ucast (drop_bit 56 n8))) (\<lambda>data.
        rbind (slice_set data (unat (end - 6)) (ucast (drop_bit 48 n8))) (\<lambda>data.
        rbind (slice_set data (unat (end - 5)) (ucast (drop_bit 40 n8))) (\<lambda>data.
        rbind (slice_set data (unat (end - 4)) (ucast (drop_bit 32 n8))) (\<lambda>data.
        rbind (slice_set data (unat (end - 3)) (ucast (drop_bit 24 n8))) (\<lambda>data.
        rbind (slice_set data (unat (end - 2)) (ucast (drop_bit 16 n8))) (\<lambda>data.
        rbind (slice_set data (unat (end - 1)) (ucast (drop_bit 8 n8))) (\<lambda>data.
               slice_set data (unat (end - 0)) (ucast (drop_bit 0 n8)))))))))))"

subsection \<open>Constants and rotation\<close>

definition hInit :: "u32 list" where
  "hInit = [0x6a09e667, 0xbb67ae85, 0x3c6ef372, 0xa54ff53a,
            0x510e527f, 0x9b05688c, 0x1f83d9ab, 0x5be0cd19]"

text \<open>The table \<^verbatim>\<open>k\<close>, in the eight rows of the source.\<close>

definition k :: "u32 list" where
  "k = [0x428a2f98, 0x71374491, 0xb5c0fbcf, 0xe9b5dba5, 0x3956c25b, 0x59f111f1, 0x923f82a4, 0xab1c5ed5] @
       [0xd807aa98, 0x12835b01, 0x243185be, 0x550c7dc3, 0x72be5d74, 0x80deb1fe, 0x9bdc06a7, 0xc19bf174] @
       [0xe49b69c1, 0xefbe4786, 0x0fc19dc6, 0x240ca1cc, 0x2de92c6f, 0x4a7484aa, 0x5cb0a9dc, 0x76f988da] @
       [0x983e5152, 0xa831c66d, 0xb00327c8, 0xbf597fc7, 0xc6e00bf3, 0xd5a79147, 0x06ca6351, 0x14292967] @
       [0x27b70a85, 0x2e1b2138, 0x4d2c6dfc, 0x53380d13, 0x650a7354, 0x766a0abb, 0x81c2c92e, 0x92722c85] @
       [0xa2bfe8a1, 0xa81a664b, 0xc24b8b70, 0xc76c51a3, 0xd192e819, 0xd6990624, 0xf40e3585, 0x106aa070] @
       [0x19a4c116, 0x1e376c08, 0x2748774c, 0x34b0bcb5, 0x391c0cb3, 0x4ed8aa4a, 0x5b9cca4f, 0x682e6ff3] @
       [0x748f82ee, 0x78a5636f, 0x84c87814, 0x8cc70208, 0x90befffa, 0xa4506ceb, 0xbef9a3f7, 0xc67178f2]"

definition Size256 :: nat where
  "Size256 = 32"

text \<open>
  \<^verbatim>\<open>bits.RotateLeft32(x, k)\<close> of Go's standard library rotates \<open>x\<close> left by
  \<open>k mod 32\<close> bits; its body is \<^verbatim>\<open>s := uint(k) & 31; return x<<s | x>>(32-s)\<close>.
\<close>

definition RotateLeft32 :: "u32 \<Rightarrow> int \<Rightarrow> u32" where
  "RotateLeft32 x r = (let s = nat (r mod 32) in push_bit s x OR drop_bit (32 - s) x)"

definition rRotate :: "u32 \<Rightarrow> int \<Rightarrow> u32" where
  "rRotate x r = RotateLeft32 x (- r)"

subsection \<open>Sha2\_256\<close>

text \<open>
  The fixed-size arrays \<^verbatim>\<open>w [64]uint32\<close>, \<^verbatim>\<open>work\<close> and \<^verbatim>\<open>h [8]uint32\<close> are lists of
  that length. Reads of the slice \<^verbatim>\<open>data32\<close> are bounds-checked; the indices into the
  arrays are the loop counters and constants of the source, all below the array's size.
\<close>

definition load_body :: "u32 list \<Rightarrow> nat \<Rightarrow> nat \<Rightarrow> u32 list \<Rightarrow> panic + u32 list" where
  "load_body data32 i j w = rbind (slice_get data32 (i * 16 + j)) (\<lambda>x. Inr (w[j := x]))"

definition extend_body :: "nat \<Rightarrow> u32 list \<Rightarrow> panic + u32 list" where
  "extend_body j w =
     (let s0 = rRotate (w ! (j - 15)) 7 XOR rRotate (w ! (j - 15)) 18 XOR drop_bit 3 (w ! (j - 15));
          s1 = rRotate (w ! (j - 2)) 17 XOR rRotate (w ! (j - 2)) 19 XOR drop_bit 10 (w ! (j - 2))
      in Inr (w[j := w ! (j - 16) + s0 + w ! (j - 7) + s1]))"

definition round_body :: "u32 list \<Rightarrow> nat \<Rightarrow> u32 list \<Rightarrow> panic + u32 list" where
  "round_body w j work =
     (let s1 = rRotate (work ! 4) 6 XOR rRotate (work ! 4) 11 XOR rRotate (work ! 4) 25;
          ch = (work ! 4 AND work ! 5) XOR (NOT (work ! 4) AND work ! 6);
          tmp1 = work ! 7 + s1 + ch + k ! j + w ! j;
          s0 = rRotate (work ! 0) 2 XOR rRotate (work ! 0) 13 XOR rRotate (work ! 0) 22;
          maj = (work ! 0 AND work ! 1) XOR (work ! 0 AND work ! 2) XOR (work ! 1 AND work ! 2);
          tmp2 = s0 + maj;
          work = work[7 := work ! 6];
          work = work[6 := work ! 5];
          work = work[5 := work ! 4];
          work = work[4 := work ! 3 + tmp1];
          work = work[3 := work ! 2];
          work = work[2 := work ! 1];
          work = work[1 := work ! 0]
      in Inr (work[0 := tmp1 + tmp2]))"

definition add_body :: "u32 list \<Rightarrow> nat \<Rightarrow> u32 list \<Rightarrow> panic + u32 list" where
  "add_body work j h = Inr (h[j := h ! j + work ! j])"

definition chunk_body :: "u32 list \<Rightarrow> nat \<Rightarrow> u32 list \<Rightarrow> panic + u32 list" where
  "chunk_body data32 i h =
     (let w = replicate 64 (0 :: u32) in
      rbind (for_range 0 16 (load_body data32 i) w) (\<lambda>w.
      rbind (for_range 16 64 extend_body w) (\<lambda>w.
      rbind (for_range 0 64 (round_body w) h) (\<lambda>work.
        for_range 0 8 (add_body work) h))))"

text \<open>The statements of \<^verbatim>\<open>Sha2_256\<close> after the call of \<^verbatim>\<open>pad512\<close>.\<close>

definition Sha2_256_padded :: "byte list \<Rightarrow> panic + byte list" where
  "Sha2_256_padded data =
     rbind (conv8to32 (replicate (length data div 4) (0 :: u32)) data) (\<lambda>data32.
     rbind (for_range 0 (length data32 div 16) (chunk_body data32) hInit) (\<lambda>h.
       conv32to8 (replicate Size256 (0 :: byte)) h))"

definition Sha2_256 :: "byte list \<Rightarrow> panic + byte list" where
  "Sha2_256 data = rbind (pad512 data) Sha2_256_padded"

section \<open>The second SHA-256 file (package sha2, type Hash256) and package util\<close>

text \<open>
  The second file of package \<^verbatim>\<open>sha2\<close> declares \<^verbatim>\<open>type Hash256 [8]uint32\<close>, repeats
  \<^verbatim>\<open>pad512\<close>, \<^verbatim>\<open>hInit\<close> and \<^verbatim>\<open>k\<close> character for character (they are the definitions
  above) and hashes one block at a time with the method \<^verbatim>\<open>Add512\<close>. Its conversion
  helpers are \<^verbatim>\<open>util.Conv32to8\<close> and \<^verbatim>\<open>util.Conv8to32\<close>.
\<close>

type_synonym Hash256 = "u32 list"

definition Conv32to8_body :: "u32 list \<Rightarrow> nat \<Rightarrow> byte list \<Rightarrow> panic + byte list" where
  "Conv32to8_body src i dst =
     rbind (slice_get src i) (\<lambda>x.
     rbind (slice_set dst (i * 4 + 0) (ucast (drop_bit 24 x) :: byte)) (\<lambda>dst.
     rbind (slice_set dst (i * 4 + 1) (ucast (drop_bit 16 x) :: byte)) (\<lambda>dst.
     rbind (slice_set dst (i * 4 + 2) (ucast (drop_bit 8 x) :: byte)) (\<lambda>dst.
       slice_set dst (i * 4 + 3) (ucast (drop_bit 0 x) :: byte)))))"

definition Conv32to8 :: "byte list \<Rightarrow> u32 list \<Rightarrow> panic + byte list" where
  "Conv32to8 dst src =
     (if length dst \<noteq> 4 * length src then Inl LengthMismatch
      else for_range 0 (length src) (Conv32to8_body src) dst)"

definition Conv8to32_body :: "byte list \<Rightarrow> nat \<Rightarrow> u32 list \<Rightarrow> panic + u32 list" where
  "Conv8to32_body src i dst =
     rbind (slice_get src (i * 4 + 0)) (\<lambda>b0.
     rbind (slice_get src (i * 4 + 1)) (\<lambda>b1.
     rbind (slice_get src (i * 4 + 2)) (\<lambda>b2.
     rbind (slice_get src (i * 4 + 3)) (\<lambda>b3.
       slice_set dst i
         (push_bit 24 (ucast b0 :: u32) OR push_bit 16 (ucast b1 :: u32) OR
          push_bit 8 (ucast b2 :: u32) OR push_bit 0 (ucast b3 :: u32))))))"

definition Conv8to32 :: "u32 list \<Rightarrow> byte list \<Rightarrow> panic + u32 list" where
  "Conv8to32 dst src =
     (if length src \<noteq> 4 * length dst then Inl LengthMismatch
      else for_range 0 (length dst) (Conv8to32_body src) dst)"

definition Bytes :: "Hash256 \<Rightarrow> panic + byte list" where
  "Bytes h = Conv32to8 (replicate Size256 (0 :: byte)) h"

subsection \<open>FromString\<close>

text \<open>
  \<^verbatim>\<open>hex.DecodeString\<close> belongs to Go's standard library (encoding/hex). As documented
  there, it decodes two characters at a time, accepts the digits and the letters a-f in
  both cases, and returns the bytes decoded before the first error together with that
  error: \<^verbatim>\<open>InvalidByteError\<close> for a character that is no hexadecimal digit, \<^verbatim>\<open>ErrLength\<close>
  for a string of odd length (an invalid last character is reported first).
\<close>

datatype error = InvalidByteError char | ErrLength | ErrorString string

definition fromHexChar :: "char \<Rightarrow> byte option" where
  "fromHexChar c =
     (let v = (of_char c :: nat) in
      if 48 \<le> v \<and> v \<le> 57 then Some (of_nat (v - 48))
      else if 97 \<le> v \<and> v \<le> 102 then Some (of_nat (v - 97 + 10))
      else if 65 \<le> v \<and> v \<le> 70 then Some (of_nat (v - 65 + 10))
      else None)"

fun DecodeString :: "string \<Rightarrow> byte list \<times> error option" where
  "DecodeString [] = ([], None)"
| "DecodeString [p] =
     (case fromHexChar p of
        None \<Rightarrow> ([], Some (InvalidByteError p))
      | Some a \<Rightarrow> ([], Some ErrLength))"
| "DecodeString (p # q # s) =
     (case fromHexChar p of
        None \<Rightarrow> ([], Some (InvalidByteError p))
      | Some a \<Rightarrow>
          (case fromHexChar q of
             None \<Rightarrow> ([], Some (InvalidByteError q))
           | Some b \<Rightarrow>
               (case DecodeString s of (x, err) \<Rightarrow> ((push_bit 4 a OR b) # x, err))))"

text \<open>
  \<^verbatim>\<open>FromString\<close> returns a pair in Go: the digest and the error. \<^verbatim>\<open>var out Hash256\<close>
  is the zero array, returned beside every error.
\<close>

definition FromString :: "string \<Rightarrow> panic + (Hash256 \<times> error option)" where
  "FromString s =
     (let out = replicate 8 (0 :: u32) in
      case DecodeString s of
        (x, Some err) \<Rightarrow> Inr (out, Some err)
      | (x, None) \<Rightarrow>
          if length x \<noteq> Size256 then Inr (out, Some (ErrorString ''string is not 32 bytes''))
          else rbind (Conv8to32 out x) (\<lambda>out. Inr (out, None)))"

subsection \<open>Add512 and the second Sha2\_256\<close>

definition Add512_load_body :: "byte list \<Rightarrow> nat \<Rightarrow> u32 list \<Rightarrow> panic + u32 list" where
  "Add512_load_body data i w =
     (let j = i * 4 in
      rbind (slice_get data j) (\<lambda>b0.
      rbind (slice_get data (j + 1)) (\<lambda>b1.
      rbind (slice_get data (j + 2)) (\<lambda>b2.
      rbind (slice_get data (j + 3)) (\<lambda>b3.
        Inr (w[i := push_bit 24 (ucast b0 :: u32) OR push_bit 16 (ucast b1 :: u32) OR
                    push_bit 8 (ucast b2 :: u32) OR (ucast b3 :: u32)]))))))"

definition Add512_extend_body :: "nat \<Rightarrow> u32 list \<Rightarrow> panic + u32 list" where
  "Add512_extend_body i w =
     (let v0 = w ! (i - 15);
          s0 = RotateLeft32 v0 (- 7) XOR RotateLeft32 v0 (- 18) XOR drop_bit 3 v0;
          v1 = w ! (i - 2);
          s1 = RotateLeft32 v1 (- 17) XOR RotateLeft32 v1 (- 19) XOR drop_bit 10 v1
      in Inr (w[i := w ! (i - 16) + s0 + w ! (i - 7) + s1]))"

text \<open>The working variables \<^verbatim>\<open>a\<close> to \<^verbatim>\<open>h\<close> of \<^verbatim>\<open>Add512\<close> are eight scalars.\<close>

type_synonym regs = "u32 \<times> u32 \<times> u32 \<times> u32 \<times> u32 \<times> u32 \<times> u32 \<times> u32"

definition Add512_round_body :: "u32 list \<Rightarrow> nat \<Rightarrow> regs \<Rightarrow> panic + regs" where
  "Add512_round_body w i r =
     (case r of (a, b, c, d, e, f, g, h) \<Rightarrow>
       (let s1 = RotateLeft32 e (- 6) XOR RotateLeft32 e (- 11) XOR RotateLeft32 e (- 25);
            ch = (e AND f) XOR (NOT e AND g);
            tmp1 = h + s1 + ch + k ! i + w ! i;
            s0 = RotateLeft32 a (- 2) XOR RotateLeft32 a (- 13) XOR RotateLeft32 a (- 22);
            maj = (a AND b) XOR (a AND c) XOR (b AND c);
            tmp2 = s0 + maj
        in Inr (tmp1 + tmp2, a, b, c, d + tmp1, e, f, g)))"

definition Add512 :: "Hash256 \<Rightarrow> byte list \<Rightarrow> panic + Hash256" where
  "Add512 x data =
     (let w = replicate 64 (0 :: u32) in
      rbind (for_range 0 16 (Add512_load_body data) w) (\<lambda>w.
      rbind (for_range 16 64 Add512_extend_body w) (\<lambda>w.
      rbind (for_range 0 64 (Add512_round_body w)
               (x ! 0, x ! 1, x ! 2, x ! 3, x ! 4, x ! 5, x ! 6, x ! 7)) (\<lambda>(a, b, c, d, e, f, g, h).
        (let x = x[0 := x ! 0 + a];
             x = x[1 := x ! 1 + b];
             x = x[2 := x ! 2 + c];
             x = x[3 := x ! 3 + d];
             x = x[4 := x ! 4 + e];
             x = x[5 := x ! 5 + f];
             x = x[6 := x ! 6 + g]
         in Inr (x[7 := x ! 7 + h]))))))"

text \<open>
  \<^verbatim>\<open>data[j : j+64]\<close> panics unless \<open>j + 64\<close> is within the slice; the bound checked
  here is the length (the capacity is at least that).
\<close>

definition slice_range :: "'a list \<Rightarrow> nat \<Rightarrow> nat \<Rightarrow> panic + 'a list" where
  "slice_range xs lo hi =
     (if lo \<le> hi \<and> hi \<le> length xs then Inr (take (hi - lo) (drop lo xs))
      else Inl SliceBoundsOutOfRange)"

definition Sha2_256_alt_body :: "byte list \<Rightarrow> nat \<Rightarrow> Hash256 \<Rightarrow> panic + Hash256" where
  "Sha2_256_alt_body data i x =
     (let j = i * 64 in rbind (slice_range data j (j + 64)) (Add512 x))"

text \<open>\<^verbatim>\<open>Sha2_256\<close> of the second file (the name is taken by the first).\<close>

definition Sha2_256_alt :: "byte list \<Rightarrow> panic + byte list" where
  "Sha2_256_alt data =
     rbind (pad512 data) (\<lambda>data.
     rbind (for_range 0 (length data div 64) (Sha2_256_alt_body data) hInit) Bytes)"

section \<open>src/base58/base58.go\<close>

definition chars :: string where
  "chars = ''123456789ABCDEFGHJKLMNPQRSTUVWXYZabcdefghijkmnopqrstuvwxyz''"

definition nChars :: nat where
  "nChars = length chars"

text \<open>
  Go's \<^verbatim>\<open>int\<close> is taken as the 64-bit two's complement integer of the 64-bit platforms:
  \<open>int64\<close> wraps a mathematical integer into its range. Division of \<^verbatim>\<open>int\<close> truncates
  towards zero.
\<close>

definition int64 :: "int \<Rightarrow> int" where
  "int64 x = (x + 2 ^ 63) mod 2 ^ 64 - 2 ^ 63"

definition quo :: "int \<Rightarrow> int \<Rightarrow> int" where
  "quo a b = sgn a * sgn b * (\<bar>a\<bar> div \<bar>b\<bar>)"

text \<open>\<^verbatim>\<open>make([]byte, n)\<close> panics on a negative length.\<close>

definition make_bytes :: "int \<Rightarrow> panic + byte list" where
  "make_bytes n = (if n < 0 then Inl MakeLenOutOfRange else Inr (replicate (nat n) (0 :: byte)))"

text \<open>
  The two loops \<^verbatim>\<open>for ; i < len(xs); i++ { if xs[i] != 0 { break } }\<close> of \<^verbatim>\<open>Encode\<close>
  (over \<^verbatim>\<open>data\<close> with the counter \<^verbatim>\<open>zeroes\<close>, over \<^verbatim>\<open>buf\<close> with the counter \<^verbatim>\<open>i\<close>):
  the result is the counter when the loop ends.
\<close>

function skip_zero :: "byte list \<Rightarrow> nat \<Rightarrow> panic + nat" where
  "skip_zero xs i =
     (if i < length xs
      then (case slice_get xs i of
              Inl e \<Rightarrow> Inl e
            | Inr x \<Rightarrow> if x \<noteq> 0 then Inr i else skip_zero xs (Suc i))
      else Inr i)"
  by pat_completeness auto
termination
  by (relation "measure (\<lambda>(xs, i). length xs - i)") auto

text \<open>
  The inner loop \<^verbatim>\<open>for j = len(buf) - 1; (j > high) || (carry != 0); j-- { ... }\<close>.
  The counters \<^verbatim>\<open>j\<close> and \<^verbatim>\<open>high\<close> and the carry are of type \<^verbatim>\<open>int\<close> and never negative:
  \<^verbatim>\<open>j--\<close> is not reached at \<open>j = 0\<close> (the \<^verbatim>\<open>break\<close> comes first), and the carry starts
  as a byte and stays below \<open>2 ^ 16\<close>, so they are natural numbers here. The loop's
  result is the state of \<^verbatim>\<open>buf\<close>, \<^verbatim>\<open>carry\<close> and \<^verbatim>\<open>j\<close> when it ends.
\<close>

function carry_loop :: "byte list \<Rightarrow> nat \<Rightarrow> nat \<Rightarrow> nat \<Rightarrow> panic + (byte list \<times> nat \<times> nat)" where
  "carry_loop buf high carry j =
     (if j > high \<or> carry \<noteq> 0
      then (case slice_get buf j of
              Inl e \<Rightarrow> Inl e
            | Inr b \<Rightarrow>
                (let carry = carry + push_bit 8 (unat b) in
                 case slice_set buf j (of_nat (carry mod nChars)) of
                   Inl e \<Rightarrow> Inl e
                 | Inr buf \<Rightarrow>
                     (let carry = carry div nChars in
                      if j = 0 then Inr (buf, carry, j)
                      else carry_loop buf high carry (j - 1))))
      else Inr (buf, carry, j))"
  by pat_completeness auto
termination
  by (relation "measure (\<lambda>(buf, high, carry, j). j)") auto

definition encode_body :: "byte list \<Rightarrow> nat \<Rightarrow> byte list \<times> nat \<Rightarrow> panic + (byte list \<times> nat)" where
  "encode_body data i s =
     (case s of (buf, high) \<Rightarrow>
        rbind (slice_get data i) (\<lambda>x.
        rbind (carry_loop buf high (unat x) (length buf - 1)) (\<lambda>(buf, carry, j).
          Inr (buf, j))))"

text \<open>
  The first part of \<^verbatim>\<open>Encode\<close>, up to the end of the loop over the input bytes: the
  count of leading zero bytes, the digit buffer and \<^verbatim>\<open>high\<close>.
\<close>

definition Encode_digits :: "byte list \<Rightarrow> panic + (nat \<times> byte list \<times> nat)" where
  "Encode_digits data =
     rbind (skip_zero data 0) (\<lambda>zeroes.
     rbind (make_bytes
              (int64 (quo (int64 ((int (length data) - int zeroes) * 137)) 100 + 1))) (\<lambda>buf.
       (let high = length buf - 1 in
        rbind (for_range zeroes (length data) (encode_body data) (buf, high)) (\<lambda>(buf, high).
          Inr (zeroes, buf, high)))))"

text \<open>
  \<^verbatim>\<open>encode\<close> is a byte slice converted to a string at the end; its cells are characters
  here (a \<^typ>\<open>char\<close> is a byte). \<^verbatim>\<open>chars[x]\<close> indexes the string constant with Go's bounds
  check.
\<close>

definition ones_body :: "nat \<Rightarrow> string \<Rightarrow> panic + string" where
  "ones_body i encode = slice_set encode i CHR ''1''"

definition symbols_body :: "byte list \<Rightarrow> nat \<Rightarrow> nat \<Rightarrow> string \<Rightarrow> panic + string" where
  "symbols_body buf zeroes i encode =
     rbind (slice_get buf (i - zeroes)) (\<lambda>x.
     rbind (slice_get chars (unat x)) (\<lambda>c.
       slice_set encode i c))"

definition Encode :: "byte list \<Rightarrow> panic + string" where
  "Encode data =
     rbind (Encode_digits data) (\<lambda>(zeroes, buf, high).
     rbind (skip_zero buf 0) (\<lambda>i.
     rbind (slice_range buf i (length buf)) (\<lambda>buf.
       (let encode = replicate (zeroes + length buf) (CHR 0x00) in
        rbind (for_range 0 zeroes ones_body encode) (\<lambda>encode.
          for_range zeroes (length encode) (symbols_body buf zeroes) encode)))))"

text \<open>\<^verbatim>\<open>Decode\<close> returns a pair: a slice (\<open>None\<close> is \<^verbatim>\<open>nil\<close>) and an error.\<close>

definition Decode :: "string \<Rightarrow> byte list option \<times> error option" where
  "Decode s =
     (if length s = 0 then (None, Some (ErrorString ''no input''))
      else (None, None))"

section \<open>Slices in a store: what pad512 does to the caller's buffer\<close>

text \<open>
  A Go slice is a window on a backing array: the array, the offset of the window, its
  length and its capacity. The store is the list of the backing arrays, an array's
  address being its position. \<^verbatim>\<open>append\<close> writes behind the window when the capacity
  allows it, and otherwise allocates a new array (at the end of the store) and copies;
  the capacity of the new array is left to the runtime, and is the new length here.
\<close>

record slice =
  s_arr :: nat
  s_off :: nat
  s_len :: nat
  s_cap :: nat

type_synonym store = "byte list list"

definition view :: "store \<Rightarrow> slice \<Rightarrow> byte list" where
  "view st s = take (s_len s) (drop (s_off s) (st ! s_arr s))"

definition store_set :: "store \<Rightarrow> slice \<Rightarrow> nat \<Rightarrow> byte \<Rightarrow> panic + store" where
  "store_set st s i v =
     (if i < s_len s then Inr (st[s_arr s := (st ! s_arr s)[s_off s + i := v]])
      else Inl IndexOutOfRange)"

fun write_at :: "byte list \<Rightarrow> nat \<Rightarrow> byte list \<Rightarrow> byte list" where
  "write_at a i [] = a"
| "write_at a i (v # vs) = write_at (a[i := v]) (Suc i) vs"

definition append_st :: "store \<Rightarrow> slice \<Rightarrow> byte list \<Rightarrow> store \<times> slice" where
  "append_st st s vs =
     (if s_len s + length vs \<le> s_cap s
      then (st[s_arr s := write_at (st ! s_arr s) (s_off s + s_len s) vs],
            s\<lparr>s_len := s_len s + length vs\<rparr>)
      else (st @ [view st s @ vs],
            \<lparr>s_arr = length st, s_off = 0, s_len = s_len s + length vs,
             s_cap = s_len s + length vs\<rparr>))"

definition pad512_st :: "store \<Rightarrow> slice \<Rightarrow> panic + (store \<times> slice)" where
  "pad512_st st data =
     (let n = (of_nat (s_len data) :: u64);
          pad = 64 - (n mod 64);
          pad = (if pad < 9 then pad + 64 else pad)
      in case append_st st data (replicate (unat pad) (0 :: byte)) of (st, data) \<Rightarrow>
       (let end = n + pad - 1;
            n8 = n * 8
        in
          rbind (store_set st data (unat n) 0x80) (\<lambda>st.
          rbind (store_set st data (unat (end - 7)) (ucast (drop_bit 56 n8))) (\<lambda>st.
          rbind (store_set st data (unat (end - 6)) (ucast (drop_bit 48 n8))) (\<lambda>st.
          rbind (store_set st data (unat (end - 5)) (ucast (drop_bit 40 n8))) (\<lambda>st.
          rbind (store_set st data (unat (end - 4)) (ucast (drop_bit 32 n8))) (\<lambda>st.
          rbind (store_set st data (unat (end - 3)) (ucast (drop_bit 24 n8))) (\<lambda>st.
          rbind (store_set st data (unat (end - 2)) (ucast (drop_bit 16 n8))) (\<lambda>st.
          rbind (store_set st data (unat (end - 1)) (ucast (drop_bit 8 n8))) (\<lambda>st.
          rbind (store_set st data (unat (end - 0)) (ucast (drop_bit 0 n8))) (\<lambda>st.
            Inr (st, data))))))))))))"

text \<open>
  After \<^verbatim>\<open>pad512\<close>, \<^verbatim>\<open>Sha2_256\<close> only reads the padded slice; \<^verbatim>\<open>data32\<close>, \<^verbatim>\<open>w\<close>,
  \<^verbatim>\<open>work\<close>, \<^verbatim>\<open>h\<close> and \<^verbatim>\<open>out\<close> are its own variables.
\<close>

definition Sha2_256_st :: "store \<Rightarrow> slice \<Rightarrow> panic + (store \<times> byte list)" where
  "Sha2_256_st st data =
     rbind (pad512_st st data) (\<lambda>(st, data).
     rbind (Sha2_256_padded (view st data)) (\<lambda>out. Inr (st, out)))"

definition slice_ok :: "store \<Rightarrow> slice \<Rightarrow> bool" where
  "slice_ok st s =
     (s_arr s < length st \<and> s_len s \<le> s_cap s \<and> s_off s + s_cap s \<le> length (st ! s_arr s))"

section \<open>Reference definitions, after the specification\<close>

subsection \<open>SHA-256 as the specification describes it\<close>

text \<open>The value of a byte string read as a big-endian number.\<close>

definition be_value :: "byte list \<Rightarrow> nat" where
  "be_value bs = foldl (\<lambda>a b. a * 256 + unat b) 0 bs"

text \<open>The 8-byte big-endian encoding of a number, and the 4 bytes of a 32-bit word.\<close>

definition be64 :: "nat \<Rightarrow> byte list" where
  "be64 x = [of_nat (x div 2 ^ 56), of_nat (x div 2 ^ 48), of_nat (x div 2 ^ 40),
             of_nat (x div 2 ^ 32), of_nat (x div 2 ^ 24), of_nat (x div 2 ^ 16),
             of_nat (x div 2 ^ 8), of_nat x]"

definition word_bytes :: "u32 \<Rightarrow> byte list" where
  "word_bytes x = [of_nat (unat x div 2 ^ 24), of_nat (unat x div 2 ^ 16),
                   of_nat (unat x div 2 ^ 8), of_nat (unat x)]"

definition be32 :: "byte list \<Rightarrow> u32" where
  "be32 bs = of_nat (be_value bs)"

text \<open>
  Padding: the byte \<open>0x80\<close>, the least number of zero bytes that makes the total length
  a multiple of 64, and the bit length in 8 bytes.
\<close>

definition pad_zeros :: "nat \<Rightarrow> nat" where
  "pad_zeros n = (119 - n mod 64) mod 64"

definition ref_pad :: "byte list \<Rightarrow> byte list" where
  "ref_pad d = d @ [0x80] @ replicate (pad_zeros (length d)) 0 @ be64 (8 * length d)"

function chunks :: "nat \<Rightarrow> 'a list \<Rightarrow> 'a list list" where
  "chunks n xs = (if n = 0 \<or> xs = [] then [] else take n xs # chunks n (drop n xs))"
  by pat_completeness auto
termination
  by (relation "measure (\<lambda>(n, xs). length xs)") auto

definition block_words :: "byte list \<Rightarrow> u32 list" where
  "block_words blk = map be32 (chunks 4 blk)"

definition ssig0 :: "u32 \<Rightarrow> u32" where
  "ssig0 x = word_rotr 7 x XOR word_rotr 18 x XOR drop_bit 3 x"

definition ssig1 :: "u32 \<Rightarrow> u32" where
  "ssig1 x = word_rotr 17 x XOR word_rotr 19 x XOR drop_bit 10 x"

definition bsig0 :: "u32 \<Rightarrow> u32" where
  "bsig0 x = word_rotr 2 x XOR word_rotr 13 x XOR word_rotr 22 x"

definition bsig1 :: "u32 \<Rightarrow> u32" where
  "bsig1 x = word_rotr 6 x XOR word_rotr 11 x XOR word_rotr 25 x"

definition ch :: "u32 \<Rightarrow> u32 \<Rightarrow> u32 \<Rightarrow> u32" where
  "ch e f g = (e AND f) XOR (NOT e AND g)"

definition maj :: "u32 \<Rightarrow> u32 \<Rightarrow> u32 \<Rightarrow> u32" where
  "maj a b c = (a AND b) XOR (a AND c) XOR (b AND c)"

text \<open>The message schedule: \<open>w[i] = w[i-16] + \<sigma>0(w[i-15]) + w[i-7] + \<sigma>1(w[i-2])\<close>.\<close>

definition ref_extend :: "u32 list \<Rightarrow> u32 list" where
  "ref_extend ws =
     ws @ [ws ! (length ws - 16) + ssig0 (ws ! (length ws - 15)) +
           ws ! (length ws - 7) + ssig1 (ws ! (length ws - 2))]"

definition ref_schedule :: "u32 list \<Rightarrow> u32 list" where
  "ref_schedule m = (ref_extend ^^ 48) m"

definition ref_round :: "u32 \<times> u32 \<Rightarrow> u32 list \<Rightarrow> u32 list" where
  "ref_round kw regs =
     (case regs of
        [a, b, c, d, e, f, g, h] \<Rightarrow>
          (let t1 = h + bsig1 e + ch e f g + fst kw + snd kw;
               t2 = bsig0 a + maj a b c
           in [t1 + t2, a, b, c, d + t1, e, f, g])
      | _ \<Rightarrow> regs)"

definition ref_compress :: "u32 list \<Rightarrow> u32 list \<Rightarrow> u32 list" where
  "ref_compress cv m = map2 (+) cv (fold ref_round (zip k (ref_schedule m)) cv)"

definition sha256_ref :: "byte list \<Rightarrow> byte list" where
  "sha256_ref d =
     concat (map word_bytes
       (fold (\<lambda>blk cv. ref_compress cv (block_words blk)) (chunks 64 (ref_pad d)) hInit))"

subsection \<open>Base58 as the specification describes it\<close>

definition leading_zeros :: "byte list \<Rightarrow> nat" where
  "leading_zeros d = length (takeWhile (\<lambda>b. b = 0) d)"

text \<open>The base-58 digits of a number, most significant first, none for 0.\<close>

function digits58 :: "nat \<Rightarrow> nat list" where
  "digits58 n = (if n = 0 then [] else digits58 (n div 58) @ [n mod 58])"
  by pat_completeness auto
termination
  by (relation "measure (\<lambda>n. n)") auto

definition ref_encode :: "byte list \<Rightarrow> string" where
  "ref_encode d =
     replicate (leading_zeros d) CHR ''1'' @
     map (\<lambda>x. chars ! x) (digits58 (be_value (drop (leading_zeros d) d)))"

text \<open>The value of a digit buffer read as a base-58 number, most significant cell first.\<close>

definition val58 :: "byte list \<Rightarrow> nat" where
  "val58 buf = foldl (\<lambda>a b. a * 58 + unat b) 0 buf"

subsection \<open>Hexadecimal strings\<close>

definition hex_char :: "char \<Rightarrow> bool" where
  "hex_char c = (c \<in> set ''0123456789abcdefABCDEF'')"

subsection \<open>Quantities used in the proofs\<close>

text \<open>The number of bytes \<^verbatim>\<open>pad512\<close> appends to an input of \<open>n\<close> bytes.\<close>

definition pad_count :: "nat \<Rightarrow> nat" where
  "pad_count n = (if 64 - n mod 64 < 9 then 64 - n mod 64 + 64 else 64 - n mod 64)"

definition ext_step :: "nat \<Rightarrow> u32 list \<Rightarrow> u32 list" where
  "ext_step j w = w[j := w ! (j - 16) + ssig0 (w ! (j - 15)) + w ! (j - 7) + ssig1 (w ! (j - 2))]"

definition word_at :: "byte list \<Rightarrow> nat \<Rightarrow> u32" where
  "word_at src i =
     push_bit 24 (ucast (src ! (i * 4))) OR push_bit 16 (ucast (src ! (i * 4 + 1))) OR
     push_bit 8 (ucast (src ! (i * 4 + 2))) OR ucast (src ! (i * 4 + 3))"

definition block_at :: "byte list \<Rightarrow> nat \<Rightarrow> u32 list" where
  "block_at data i = map (\<lambda>j. word_at data (16 * i + j)) [0..<16]"

definition sha_blocks :: "byte list \<Rightarrow> u32 list" where
  "sha_blocks data =
     fold (\<lambda>i cv. ref_compress cv (block_at data i)) [0..<length data div 64] hInit"

definition regs_list :: "regs \<Rightarrow> u32 list" where
  "regs_list r = (case r of (a, b, c, d, e, f, g, h) \<Rightarrow> [a, b, c, d, e, f, g, h])"

definition list_regs :: "u32 list \<Rightarrow> regs" where
  "list_regs x = (x ! 0, x ! 1, x ! 2, x ! 3, x ! 4, x ! 5, x ! 6, x ! 7)"

text \<open>
  The invariant of the writes of \<^verbatim>\<open>pad512\<close>: the padded slice \<open>s1\<close> shows \<open>xs\<close>, the
  caller's slice \<open>s\<close> shows what it showed in the store \<open>st0\<close> before the call; and the
  simulation of \<^verbatim>\<open>pad512\<close> on lists by \<^verbatim>\<open>pad512\<close> on the store.
\<close>

definition framed :: "store \<Rightarrow> slice \<Rightarrow> store \<Rightarrow> slice \<Rightarrow> byte list \<Rightarrow> bool" where
  "framed st0 s st s1 xs =
     (slice_ok st s1 \<and> view st s1 = xs \<and> view st s = view st0 s \<and>
      (s_arr s1 \<noteq> s_arr s \<or> s_off s1 = s_off s))"

definition sim :: "store \<Rightarrow> slice \<Rightarrow> slice \<Rightarrow> panic + (store \<times> slice) \<Rightarrow> panic + byte list \<Rightarrow> bool" where
  "sim st0 s s1 a b = (\<exists>st' ys. a = Inr (st', s1) \<and> b = Inr ys \<and> framed st0 s st' s1 ys)"

text \<open>
  The invariant of the loop of \<^verbatim>\<open>Encode\<close> over the input bytes, before the byte at index
  \<open>i\<close>: the buffer holds the value of the bytes read so far, and its cells up to \<^verbatim>\<open>high\<close> are
  zero while bytes remain.
\<close>

definition encode_inv :: "byte list \<Rightarrow> nat \<Rightarrow> nat \<Rightarrow> nat \<Rightarrow> byte list \<times> nat \<Rightarrow> bool" where
  "encode_inv d z L i s =
     (case s of (buf, high) \<Rightarrow>
        length buf = L \<and> list_all (\<lambda>b. unat b < 58) buf \<and>
        val58 buf = be_value (take (i - z) (drop z d)) \<and> high < L \<and>
        (i < length d \<longrightarrow> (\<forall>c \<le> high. buf ! c = 0)))"

section \<open>Basic facts about the error monad, slices and loops\<close>

lemma rbind_Inr [simp]: "rbind (Inr x) f = f x"
  by (simp add: rbind_def)

lemma rbind_Inl [simp]: "rbind (Inl e) f = Inl e"
  by (simp add: rbind_def)

lemma slice_set_ok: "i < length xs \<Longrightarrow> slice_set xs i v = Inr (xs[i := v])"
  by (simp add: slice_set_def)

lemma slice_get_ok: "i < length xs \<Longrightarrow> slice_get xs i = Inr (xs ! i)"
  by (simp add: slice_get_def)

section \<open>pad512\<close>

lemma ucast_drop_bit_of_nat:
  "m < 2 ^ 64 \<Longrightarrow> (ucast (drop_bit j (of_nat m :: u64)) :: byte) = of_nat (m div 2 ^ j)"
proof -
  assume m: "m < 2 ^ 64"
  have "unat (of_nat m :: u64) = m"
    using m by (simp add: unat_of_nat)
  then have "unat (drop_bit j (of_nat m :: u64)) = m div 2 ^ j"
    using unat_drop_bit_eq [of j "of_nat m :: u64"] by (simp only: drop_bit_eq_div)
  then show ?thesis
    using of_nat_unat [of "drop_bit j (of_nat m :: u64)", where ?'a = "byte"] by simp
qed

lemma unat_len:
  assumes "n < 2 ^ 61"
  shows "unat (of_nat n :: u64) = n"
  using assms by (simp add: unat_of_nat)

lemma unat_mod64: "unat ((of_nat n :: u64) mod 64) = n mod 64"
proof -
  have "(64 :: nat) dvd 2 ^ 64"
    by (rule dvdI [where k = "2 ^ 58"]) simp
  then have "n mod 2 ^ 64 mod 64 = n mod 64"
    by (rule mod_mod_cancel)
  then show ?thesis
    by (simp add: unat_mod unat_of_nat)
qed

lemma unat_pad_any:
  "unat (if 64 - (of_nat n :: u64) mod 64 < 9 then 64 - (of_nat n :: u64) mod 64 + 64
               else 64 - (of_nat n :: u64) mod 64) = pad_count n"
proof -
  have m: "unat ((of_nat n :: u64) mod 64) = n mod 64"
    by (rule unat_mod64)
  have "n mod 64 < 64" by simp
  then have a: "unat (64 - (of_nat n :: u64) mod 64) = 64 - n mod 64"
    using m by (simp add: unat_sub word_le_nat_alt)
  have b: "(64 - (of_nat n :: u64) mod 64 < 9) = (64 - n mod 64 < 9)"
    by (simp add: word_less_nat_alt a)
  have "unat (64 - (of_nat n :: u64) mod 64) + unat (64 :: u64) < 2 ^ LENGTH(64)"
    by (simp add: a)
  then have "unat (64 - (of_nat n :: u64) mod 64 + 64) = unat (64 - (of_nat n :: u64) mod 64) + unat (64 :: u64)"
    by (simp only: unat_add_lem)
  then have c: "unat (64 - (of_nat n :: u64) mod 64 + 64) = 64 - n mod 64 + 64"
    by (simp only: a) simp
  show ?thesis
  proof (cases "64 - n mod 64 < 9")
    case True
    then show ?thesis by (simp only: pad_count_def b c if_True)
  next
    case False
    then show ?thesis by (simp only: pad_count_def b a if_False)
  qed
qed

lemma pad_count_bounds: "9 \<le> pad_count n \<and> pad_count n \<le> 72"
  using mod_less_divisor [of 64 n] by (auto simp: pad_count_def)

lemma unat_end:
  fixes p :: u64
  assumes "n < 2 ^ 61" "unat p = P" "9 \<le> P" "P \<le> 72" "j < 9"
  shows "unat (of_nat n + p - 1 - of_nat j) = n + P - 1 - j"
proof -
  have un: "unat (of_nat n :: u64) = n"
    by (rule unat_len [OF assms(1)])
  have s: "unat (of_nat n + p) = n + P"
  proof -
    have "unat (of_nat n :: u64) + unat p < 2 ^ LENGTH(64)"
      using assms by (simp add: un)
    then have "unat (of_nat n + p) = unat (of_nat n :: u64) + unat p"
      by (simp only: unat_add_lem)
    then show ?thesis by (simp only: un assms(2))
  qed
  have uj: "unat (1 + of_nat j :: u64) = 1 + j"
    using assms(5) by (simp add: unat_of_nat unat_word_ariths)
  have le: "(1 + of_nat j :: u64) \<le> of_nat n + p"
    using assms by (simp only: word_le_nat_alt s uj)
  have "unat (of_nat n + p - (1 + of_nat j)) = n + P - (1 + j)"
    using unat_sub [OF le] by (simp only: s uj)
  then show ?thesis
    by (simp only: diff_diff_add diff_diff_left)
qed

lemma pad512_eq:
  assumes "length d < 2 ^ 61"
  shows "pad512 d = Inr (d @ [0x80] @ replicate (pad_count (length d) - 9) 0 @ be64 (8 * length d))"
proof -
  let ?n = "length d"
  let ?P = "pad_count ?n"
  let ?p = "(if 64 - (of_nat ?n :: u64) mod 64 < 9 then 64 - (of_nat ?n :: u64) mod 64 + 64
               else 64 - (of_nat ?n :: u64) mod 64)"
  have up: "unat ?p = ?P"
    by (rule unat_pad_any)
  have b: "9 \<le> ?P" "?P \<le> 72"
    using pad_count_bounds [of ?n] by simp_all
  have un: "unat (of_nat ?n :: u64) = ?n"
    by (rule unat_len [OF assms])
  have e: "\<And>j. j < 9 \<Longrightarrow> unat (of_nat ?n + ?p - 1 - of_nat j) = ?n + ?P - 1 - j"
    by (rule unat_end [OF assms up b])
  have e0: "unat (of_nat ?n + ?p - 1 - 0) = ?n + ?P - 1 - 0" using e [of 0] by simp
  have e1: "unat (of_nat ?n + ?p - 1 - 1) = ?n + ?P - 1 - 1" using e [of 1] by simp
  have e2: "unat (of_nat ?n + ?p - 1 - 2) = ?n + ?P - 1 - 2" using e [of 2] by simp
  have e3: "unat (of_nat ?n + ?p - 1 - 3) = ?n + ?P - 1 - 3" using e [of 3] by simp
  have e4: "unat (of_nat ?n + ?p - 1 - 4) = ?n + ?P - 1 - 4" using e [of 4] by simp
  have e5: "unat (of_nat ?n + ?p - 1 - 5) = ?n + ?P - 1 - 5" using e [of 5] by simp
  have e6: "unat (of_nat ?n + ?p - 1 - 6) = ?n + ?P - 1 - 6" using e [of 6] by simp
  have e7: "unat (of_nat ?n + ?p - 1 - 7) = ?n + ?P - 1 - 7" using e [of 7] by simp
  have n8: "(of_nat ?n :: u64) * 8 = of_nat (8 * ?n)"
    by simp
  have lt: "8 * ?n < 2 ^ 64"
    using assms by simp
  note dr = ucast_drop_bit_of_nat [OF lt]
  obtain q where q: "?P = 9 + q"
    using b(1) by (metis le_Suc_ex)
  have r8: "replicate 8 (0 :: byte) = [0, 0, 0, 0, 0, 0, 0, 0]"
    by (simp add: numeral_eq_Suc)
  have "replicate (1 + q + 8) (0 :: byte) = replicate 1 0 @ replicate q 0 @ replicate 8 0"
    by (simp only: replicate_add append_assoc)
  then have sp: "replicate (9 + q) (0 :: byte) = 0 # replicate q 0 @ [0, 0, 0, 0, 0, 0, 0, 0]"
    by (simp add: r8)
  show ?thesis
    apply (simp only: pad512_def Let_def up un e0 e1 e2 e3 e4 e5 e6 e7 n8 dr)
    apply (simp only: q)
    apply (simp only: sp be64_def)
    apply (simp add: slice_set_ok list_update_append nth_append)
    done
qed

lemma pad_zeros_alt:
  "pad_zeros n = (if n mod 64 < 56 then 55 - n mod 64 else 119 - n mod 64)"
proof -
  have r: "n mod 64 < 64" by simp
  show ?thesis
  proof (cases "n mod 64 < 56")
    case True
    then have "119 - n mod 64 = 64 + (55 - n mod 64)" by simp
    then have "(119 - n mod 64) mod 64 = (55 - n mod 64) mod 64"
      by (simp only: mod_add_self1)
    with True show ?thesis by (simp add: pad_zeros_def)
  next
    case False
    with r have "119 - n mod 64 < 64" by simp
    with False show ?thesis by (simp add: pad_zeros_def)
  qed
qed

lemma pad_zeros_count: "pad_zeros n = pad_count n - 9"
  using mod_less_divisor [of 64 n] by (auto simp: pad_zeros_alt pad_count_def)

lemma padded_length:
  "n + 1 + pad_zeros n + 8 = 64 * (if 64 - n mod 64 < 9 then n div 64 + 2 else n div 64 + 1)"
proof -
  define q r where "q = n div 64" and "r = n mod 64"
  have n: "n = 64 * q + r" and r: "r < 64"
    by (simp_all add: q_def r_def)
  show ?thesis
    unfolding pad_zeros_alt q_def [symmetric] r_def [symmetric] using n r by auto
qed

lemma pad_zeros_multiple: "(n + 1 + pad_zeros n + 8) mod 64 = 0"
  by (simp only: padded_length mod_mult_self1_is_0)

lemma pad_zeros_less: "pad_zeros n < 64"
  by (simp add: pad_zeros_def)

lemma pad_zeros_least: "pad_zeros n = (LEAST z. (n + 1 + z + 8) mod 64 = 0)"
proof (rule Least_equality [symmetric])
  show "(n + 1 + pad_zeros n + 8) mod 64 = 0"
    by (rule pad_zeros_multiple)
next
  fix y
  assume "(n + 1 + y + 8) mod 64 = 0"
  then have "64 dvd n + 1 + y + 8"
    by (simp only: mod_eq_0_iff_dvd)
  then obtain m where m: "n + 1 + y + 8 = 64 * m"
    by (rule dvdE)
  obtain c where c: "n + 1 + pad_zeros n + 8 = 64 * c"
    using padded_length by blast
  show "pad_zeros n \<le> y"
  proof (rule ccontr)
    assume "\<not> pad_zeros n \<le> y"
    then have "y < pad_zeros n" by simp
    with m c pad_zeros_less [of n] have "64 * m < 64 * c" "64 * c < 64 * m + 64"
      by linarith+
    then show False by simp
  qed
qed

text \<open>
  Claim C2. For an input \<open>d\<close> of \<open>n\<close> bytes (with a bit length that fits the 8-byte
  length field, \<open>n < 2 ^ 61\<close>), \<^verbatim>\<open>pad512\<close> returns without a panic the bytes of \<open>d\<close>,
  then \<open>0x80\<close>, then the least number of zero bytes that makes the length a multiple of
  64, then \<open>8 * n\<close> in 8 big-endian bytes. The result has one block more than
  \<open>n div 64 + 1\<close> exactly when fewer than 9 bytes are free in the last block; the empty
  input gives one block of 64 bytes, and the lengths 0, 55, 56, 64 give 1, 1, 2, 2 blocks.
\<close>

theorem pad512_layout:
  assumes "length d < 2 ^ 61"
  shows "\<exists>p. pad512 d = Inr p
           \<and> p = d @ [0x80] @ replicate (pad_zeros (length d)) 0 @ be64 (8 * length d)
           \<and> pad_zeros (length d) = (LEAST z. (length d + 1 + z + 8) mod 64 = 0)
           \<and> length p mod 64 = 0
           \<and> length p div 64 = (if 64 - length d mod 64 < 9 then length d div 64 + 2 else length d div 64 + 1)
           \<and> (length d = 0 \<longrightarrow> length p = 64)
           \<and> (length d \<in> {0, 55} \<longrightarrow> length p div 64 = 1)
           \<and> (length d \<in> {56, 64} \<longrightarrow> length p div 64 = 2)"
proof -
  let ?p = "d @ [0x80] @ replicate (pad_zeros (length d)) 0 @ be64 (8 * length d)"
  have len: "length ?p = length d + 1 + pad_zeros (length d) + 8"
    by (simp add: be64_def)
  have 1: "pad512 d = Inr ?p"
    using pad512_eq [OF assms] by (simp only: pad_zeros_count)
  have 2: "length ?p mod 64 = 0"
    by (simp only: len pad_zeros_multiple)
  have 3: "length ?p div 64 = (if 64 - length d mod 64 < 9 then length d div 64 + 2 else length d div 64 + 1)"
    by (simp only: len padded_length)
  have 4: "length d = 0 \<longrightarrow> length ?p = 64"
    by (simp add: be64_def pad_zeros_def)
  have 5: "length d \<in> {0, 55} \<longrightarrow> length ?p div 64 = 1"
  proof
    assume "length d \<in> {0, 55}"
    then consider "length d = 0" | "length d = 55" by auto
    then have "(if 64 - length d mod 64 < 9 then length d div 64 + 2 else length d div 64 + 1) = 1"
      by cases simp_all
    then show "length ?p div 64 = 1" by (simp only: 3)
  qed
  have 6: "length d \<in> {56, 64} \<longrightarrow> length ?p div 64 = 2"
  proof
    assume "length d \<in> {56, 64}"
    then consider "length d = 56" | "length d = 64" by auto
    then have "(if 64 - length d mod 64 < 9 then length d div 64 + 2 else length d div 64 + 1) = 2"
      by cases simp_all
    then show "length ?p div 64 = 2" by (simp only: 3)
  qed
  show ?thesis
    by (intro exI [of _ ?p] conjI 1 2 3 4 5 6 refl pad_zeros_least)
qed

theorem pad512_layout_witness:
  "pad512 [] = Inr (0x80 # replicate 55 0 @ [0, 0, 0, 0, 0, 0, 0, 0])
   \<and> (\<exists>p. pad512 (replicate 55 1) = Inr p \<and> length p = 64)
   \<and> (\<exists>p. pad512 (replicate 56 1) = Inr p \<and> length p = 128)
   \<and> (\<exists>p. pad512 (replicate 64 1) = Inr p \<and> length p = 128)"
proof -
  have a: "pad512 [] = Inr (0x80 # replicate 55 0 @ [0, 0, 0, 0, 0, 0, 0, 0])"
    using pad512_layout [of "[]"] by (simp add: pad_zeros_def be64_def)
  have b: "\<exists>p. pad512 (replicate 55 1) = Inr p \<and> length p = 64"
    using pad512_layout [of "replicate 55 1"] by (simp add: pad_zeros_def be64_def)
  have c: "\<exists>p. pad512 (replicate 56 1) = Inr p \<and> length p = 128"
    using pad512_layout [of "replicate 56 1"] by (simp add: pad_zeros_def be64_def)
  have d: "\<exists>p. pad512 (replicate 64 1) = Inr p \<and> length p = 128"
    using pad512_layout [of "replicate 64 1"] by (simp add: pad_zeros_def be64_def)
  show ?thesis using a b c d by blast
qed

section \<open>The loops of Sha2\_256 and Add512\<close>

declare for_range.simps [simp del]

lemma for_range_done: "b \<le> i \<Longrightarrow> for_range i b body s = Inr s"
  by (subst for_range.simps) simp

lemma for_range_step:
  "i < b \<Longrightarrow> for_range i b body s = rbind (body i s) (for_range (Suc i) b body)"
  by (subst for_range.simps) (simp add: rbind_def)

lemma for_range_inv:
  assumes "i \<le> b" and "I i s"
    and "\<And>j s. i \<le> j \<Longrightarrow> j < b \<Longrightarrow> I j s \<Longrightarrow> body j s = Inr (f j s) \<and> I (Suc j) (f j s)"
  shows "for_range i b body s = Inr (fold f [i..<b] s) \<and> I b (fold f [i..<b] s)"
  using assms
proof (induction "b - i" arbitrary: i s)
  case 0
  then show ?case by (simp add: for_range_done)
next
  case (Suc n)
  then have lt: "i < b" by simp
  from Suc.prems(3) [OF order_refl lt Suc.prems(2)]
  have b: "body i s = Inr (f i s)" and I': "I (Suc i) (f i s)" by simp_all
  have n: "n = b - Suc i" using Suc.hyps(2) by simp
  have le: "Suc i \<le> b" using lt by simp
  have step: "\<And>j s. Suc i \<le> j \<Longrightarrow> j < b \<Longrightarrow> I j s \<Longrightarrow> body j s = Inr (f j s) \<and> I (Suc j) (f j s)"
    using Suc.prems(3) by simp
  from Suc.hyps(1) [OF n le I' step]
  have "for_range (Suc i) b body (f i s) = Inr (fold f [Suc i..<b] (f i s)) \<and>
        I b (fold f [Suc i..<b] (f i s))" .
  then show ?case
    using lt b by (simp add: for_range_step upt_conv_Cons)
qed

lemma for_range_pure:
  assumes "\<And>j s. i \<le> j \<Longrightarrow> j < b \<Longrightarrow> body j s = Inr (f j s)"
  shows "for_range i b body s = Inr (fold f [i..<b] s)"
proof (cases "i \<le> b")
  case True
  then show ?thesis
    using for_range_inv [of i b "\<lambda>j s. True" s body f] assms by simp
next
  case False
  then show ?thesis by (simp add: for_range_done)
qed

lemma fold_update_map:
  "n \<le> length s \<Longrightarrow> fold (\<lambda>j s. s[j := W j]) [0..<n] s = map W [0..<n] @ drop n s"
proof (induction n)
  case 0
  then show ?case by simp
next
  case (Suc n)
  then have "fold (\<lambda>j s. s[j := W j]) [0..<Suc n] s = (map W [0..<n] @ drop n s)[n := W n]"
    by simp
  also have "\<dots> = map W [0..<n] @ (drop n s)[0 := W n]"
    by (simp add: list_update_append)
  also have "(drop n s)[0 := W n] = W n # drop (Suc n) s"
    using Suc.prems by (cases "drop n s") (auto simp: drop_Suc [symmetric] Cons_nth_drop_Suc [symmetric])
  finally show ?case by simp
qed

lemma rRotate_rotr:
  assumes "0 < n" "n < 32"
  shows "rRotate x (int n) = word_rotr n x"
proof (rule bit_word_eqI)
  fix m
  assume "m < LENGTH(32)"
  then have m: "m < 32" by simp
  have s: "nat (- int n mod 32) = 32 - n"
    using assms by (simp add: zmod_zminus1_eq_if nat_diff_distrib)
  have l: "bit (rRotate x (int n)) m = ((32 - n \<le> m \<and> bit x (m - (32 - n))) \<or> bit x (n + m))"
    using assms m by (simp add: rRotate_def RotateLeft32_def Let_def s bit_simps)
  have r: "bit (word_rotr n x) m = bit x ((m + n) mod 32)"
    using m by (simp add: bit_word_rotr_iff)
  show "bit (rRotate x (int n)) m = bit (word_rotr n x) m"
  proof (cases "m + n < 32")
    case True
    then have "\<not> 32 - n \<le> m" "(m + n) mod 32 = n + m"
      using assms by simp_all
    then show ?thesis by (simp only: l r) simp
  next
    case False
    then have a: "32 - n \<le> m" and b: "(m + n) mod 32 = m - (32 - n)"
      using assms m by (simp_all add: mod_if)
    have "\<not> bit x (n + m)"
      using False bit_imp_le_length [of x "n + m"] by auto
    then show ?thesis by (simp only: l r a b) simp
  qed
qed

lemma list8:
  assumes "length xs = 8"
  obtains a b c d e f g h where "xs = [a, b, c, d, e, f, g, h]"
proof -
  from assms have "length xs = Suc (Suc (Suc (Suc (Suc (Suc (Suc (Suc 0)))))))"
    by simp
  then show ?thesis
    by (auto simp: length_Suc_conv intro: that)
qed

lemma ref_round_length [simp]: "length (ref_round kw r) = length r"
  by (simp add: ref_round_def Let_def split: list.splits)

lemma round_body_ref:
  assumes "length work = 8"
  shows "round_body w j work = Inr (ref_round (k ! j, w ! j) work)"
proof -
  obtain a b c d e f g h where work: "work = [a, b, c, d, e, f, g, h]"
    using assms by (rule list8)
  have r: "\<And>x. rRotate x 2 = word_rotr 2 x" "\<And>x. rRotate x 13 = word_rotr 13 x"
    "\<And>x. rRotate x 22 = word_rotr 22 x" "\<And>x. rRotate x 6 = word_rotr 6 x"
    "\<And>x. rRotate x 11 = word_rotr 11 x" "\<And>x. rRotate x 25 = word_rotr 25 x"
    using rRotate_rotr [of 2] rRotate_rotr [of 13] rRotate_rotr [of 22]
      rRotate_rotr [of 6] rRotate_rotr [of 11] rRotate_rotr [of 25] by simp_all
  show ?thesis
    by (simp add: work round_body_def ref_round_def Let_def r bsig0_def bsig1_def ch_def maj_def)
qed

lemma zip_nth_map:
  "length xs = n \<Longrightarrow> length ys = n \<Longrightarrow> map (\<lambda>j. (xs ! j, ys ! j)) [0..<n] = zip xs ys"
  by (rule nth_equalityI) simp_all

lemma length_k: "length k = 64"
  by (simp add: k_def)

lemma fold_ref_round_length [simp]: "length (fold ref_round kws r) = length r"
  by (induction kws arbitrary: r) simp_all

lemma rounds_ref:
  assumes "length work = 8" "length w = 64"
  shows "for_range 0 64 (round_body w) work = Inr (fold ref_round (zip k w) work)"
proof -
  have "for_range 0 64 (round_body w) work =
          Inr (fold (\<lambda>j. ref_round (k ! j, w ! j)) [0..<64] work) \<and>
        length (fold (\<lambda>j. ref_round (k ! j, w ! j)) [0..<64] work) = 8"
    by (rule for_range_inv [where I = "\<lambda>j s. length s = 8"])
       (simp_all add: assms round_body_ref)
  moreover have "fold (\<lambda>j. ref_round (k ! j, w ! j)) [0..<64] work =
                 fold ref_round (map (\<lambda>j. (k ! j, w ! j)) [0..<64]) work"
    by (simp only: fold_map comp_def)
  ultimately show ?thesis
    by (simp only: zip_nth_map [OF length_k assms(2)])
qed

lemma extend_body_step: "extend_body j w = Inr (ext_step j w)"
proof -
  have r: "\<And>x. rRotate x 7 = word_rotr 7 x" "\<And>x. rRotate x 18 = word_rotr 18 x"
    "\<And>x. rRotate x 17 = word_rotr 17 x" "\<And>x. rRotate x 19 = word_rotr 19 x"
    using rRotate_rotr [of 7] rRotate_rotr [of 18] rRotate_rotr [of 17] rRotate_rotr [of 19]
    by simp_all
  show ?thesis
    by (simp add: extend_body_def ext_step_def Let_def r ssig0_def ssig1_def)
qed

lemma ext_step_length [simp]: "length (ext_step j w) = length w"
  by (simp add: ext_step_def)

lemma fold_ext_step_length [simp]: "length (fold ext_step js w) = length w"
  by (induction js arbitrary: w) simp_all

lemma take_ext_step:
  assumes "16 \<le> n" "n < length w"
  shows "take (Suc n) (ext_step n w) = ref_extend (take n w)"
proof -
  have "take (Suc n) (w[n := v]) = take n w @ [v]" for v
    using assms(2) by (simp add: take_Suc_conv_app_nth)
  moreover have "(take n w) ! (n - i) = w ! (n - i)" if "0 < i" for i
    using that assms by simp
  ultimately show ?thesis
    using assms by (simp add: ext_step_def ref_extend_def)
qed

lemma ext_step_take:
  assumes "m \<le> n"
  shows "take m (ext_step n w) = take m w"
  using assms by (simp add: ext_step_def)

lemma fold_ext_take:
  assumes "16 + i \<le> length w"
  shows "take (16 + i) (fold ext_step [16..<16 + i] w) = (ref_extend ^^ i) (take 16 w)"
  using assms
proof (induction i)
  case 0
  then show ?case by simp
next
  case (Suc i)
  let ?w = "fold ext_step [16..<16 + i] w"
  have u: "[16..<16 + Suc i] = [16..<16 + i] @ [16 + i]"
    using upt_Suc_append [of 16 "16 + i"] by simp
  have "fold ext_step [16..<16 + Suc i] w = ext_step (16 + i) ?w"
    by (simp only: u fold_append fold_simps comp_def id_def)
  then have "take (16 + Suc i) (fold ext_step [16..<16 + Suc i] w) = take (Suc (16 + i)) (ext_step (16 + i) ?w)"
    by (simp only: add_Suc_right)
  also have "\<dots> = ref_extend (take (16 + i) ?w)"
    using Suc.prems by (intro take_ext_step) simp_all
  also have "take (16 + i) ?w = (ref_extend ^^ i) (take 16 w)"
    using Suc by simp
  finally show ?case by simp
qed

lemma extend_ref:
  assumes "length w = 64"
  shows "for_range 16 64 extend_body w = Inr (ref_schedule (take 16 w))"
proof -
  have "for_range 16 64 extend_body w = Inr (fold ext_step [16..<64] w)"
    by (rule for_range_pure) (rule extend_body_step)
  moreover have "take (16 + 48) (fold ext_step [16..<16 + 48] w) = (ref_extend ^^ 48) (take 16 w)"
    by (rule fold_ext_take) (simp add: assms)
  ultimately show ?thesis
    by (simp add: ref_schedule_def assms)
qed

lemma conv8to32_body_ok:
  assumes "length src = 4 * n" "length dst = n" "j < n"
  shows "conv8to32_body src j dst = Inr (dst[j := word_at src j])"
  using assms by (simp add: conv8to32_body_def slice_get_ok slice_set_ok word_at_def)

lemma conv8to32_eq:
  assumes "length src = 4 * length dst"
  shows "conv8to32 dst src = Inr (map (word_at src) [0..<length dst])"
proof -
  let ?f = "\<lambda>j s. s[j := word_at src j]"
  have "for_range 0 (length dst) (conv8to32_body src) dst = Inr (fold ?f [0..<length dst] dst)
        \<and> length (fold ?f [0..<length dst] dst) = length dst"
    by (rule for_range_inv [where I = "\<lambda>j s. length s = length dst"])
       (simp_all add: conv8to32_body_ok [OF assms])
  then show ?thesis
    using assms by (simp add: conv8to32_def fold_update_map)
qed

lemma load_ok:
  assumes "i * 16 + 16 \<le> length data32" "16 \<le> length w"
  shows "for_range 0 16 (load_body data32 i) w =
           Inr (map (\<lambda>j. data32 ! (i * 16 + j)) [0..<16] @ drop 16 w)"
proof -
  have "for_range 0 16 (load_body data32 i) w =
          Inr (fold (\<lambda>j s. s[j := data32 ! (i * 16 + j)]) [0..<16] w)"
    using assms(1) by (intro for_range_pure) (simp add: load_body_def slice_get_ok)
  then show ?thesis
    using assms(2) by (simp only: fold_update_map)
qed

lemma add_ok:
  assumes "length h = 8" "length work = 8"
  shows "for_range 0 8 (add_body work) h = Inr (map2 (+) h work)"
proof -
  obtain a b c d e f g i where h: "h = [a, b, c, d, e, f, g, i]"
    using assms(1) by (rule list8)
  obtain a' b' c' d' e' f' g' i' where w: "work = [a', b', c', d', e', f', g', i']"
    using assms(2) by (rule list8)
  have "for_range 0 8 (add_body work) h = Inr (fold (\<lambda>j h. h[j := h ! j + work ! j]) [0..<8] h)"
    by (intro for_range_pure) (simp add: add_body_def)
  moreover have "[0..<8] = [0, 1, 2, 3, 4, 5, 6, 7]"
    by (simp add: upt_rec)
  ultimately show ?thesis
    by (simp add: h w)
qed

lemma ref_extend_length [simp]: "length (ref_extend ws) = Suc (length ws)"
  by (simp add: ref_extend_def)

lemma funpow_ref_extend_length [simp]: "length ((ref_extend ^^ n) ws) = n + length ws"
  by (induction n) simp_all

lemma ref_schedule_length [simp]: "length (ref_schedule m) = 48 + length m"
  by (simp add: ref_schedule_def)

lemma ref_compress_length: "length cv = 8 \<Longrightarrow> length (ref_compress cv m) = 8"
  by (simp add: ref_compress_def)

lemma chunk_body_ref:
  assumes "length h = 8" "i * 16 + 16 \<le> length data32"
  shows "chunk_body data32 i h =
           Inr (ref_compress h (map (\<lambda>j. data32 ! (i * 16 + j)) [0..<16]))"
proof -
  let ?m = "map (\<lambda>j. data32 ! (i * 16 + j)) [0..<16]"
  let ?w0 = "replicate 64 (0 :: u32)"
  have 1: "for_range 0 16 (load_body data32 i) ?w0 = Inr (?m @ drop 16 ?w0)"
    by (rule load_ok [OF assms(2)]) simp
  have 2: "for_range 16 64 extend_body (?m @ drop 16 ?w0) = Inr (ref_schedule ?m)"
    using extend_ref [of "?m @ drop 16 ?w0"] by simp
  have 3: "for_range 0 64 (round_body (ref_schedule ?m)) h
             = Inr (fold ref_round (zip k (ref_schedule ?m)) h)"
    by (rule rounds_ref [OF assms(1)]) simp
  have 4: "for_range 0 8 (add_body (fold ref_round (zip k (ref_schedule ?m)) h)) h
             = Inr (map2 (+) h (fold ref_round (zip k (ref_schedule ?m)) h))"
    by (rule add_ok [OF assms(1)]) (simp add: assms(1))
  show ?thesis
    by (simp only: chunk_body_def Let_def 1 2 3 4 rbind_Inr ref_compress_def)
qed

lemma ucast_drop_bit_unat:
  "(ucast (drop_bit j (x :: u32)) :: byte) = of_nat (unat x div 2 ^ j)"
proof -
  have "unat (drop_bit j x) = unat x div 2 ^ j"
    using unat_drop_bit_eq [of j x] by (simp only: drop_bit_eq_div)
  then show ?thesis
    using of_nat_unat [of "drop_bit j x", where ?'a = "byte"] by simp
qed

lemma list4:
  assumes "length xs = 4"
  obtains a b c d where "xs = [a, b, c, d]"
proof -
  from assms have "length xs = Suc (Suc (Suc (Suc 0)))"
    by simp
  then show ?thesis
    by (auto simp: length_Suc_conv intro: that)
qed

lemma fold_update4:
  assumes "4 * n \<le> length s"
  shows "fold (\<lambda>j s. s[j * 4 := A j, j * 4 + 1 := B j, j * 4 + 2 := C j, j * 4 + 3 := D j]) [0..<n] s
         = concat (map (\<lambda>j. [A j, B j, C j, D j]) [0..<n]) @ drop (4 * n) s"
  using assms
proof (induction n)
  case 0
  then show ?case by simp
next
  case (Suc n)
  let ?pre = "concat (map (\<lambda>j. [A j, B j, C j, D j]) [0..<n])"
  have lp: "length ?pre = n * 4"
    by (induction n) simp_all
  have "length (take 4 (drop (4 * n) s)) = 4"
    using Suc.prems by simp
  then obtain a b c d where t: "take 4 (drop (4 * n) s) = [a, b, c, d]"
    by (rule list4)
  have "drop (4 * n) s = take 4 (drop (4 * n) s) @ drop 4 (drop (4 * n) s)"
    by (rule append_take_drop_id [symmetric])
  then have d: "drop (4 * n) s = [a, b, c, d] @ drop (4 * Suc n) s"
    by (simp only: t drop_drop) (simp add: add.commute)
  have "fold (\<lambda>j s. s[j * 4 := A j, j * 4 + 1 := B j, j * 4 + 2 := C j, j * 4 + 3 := D j]) [0..<Suc n] s
        = (?pre @ drop (4 * n) s)[n * 4 := A n, n * 4 + 1 := B n, n * 4 + 2 := C n, n * 4 + 3 := D n]"
    using Suc by simp
  also have "\<dots> = ?pre @ [A n, B n, C n, D n] @ drop (4 * Suc n) s"
    by (simp only: d) (simp add: list_update_append lp)
  finally show ?case by simp
qed

lemma conv32to8_body_ok:
  assumes "length dst = 4 * n" "length src = n" "j < n"
  shows "conv32to8_body src j dst =
           Inr (dst[j * 4 := of_nat (unat (src ! j) div 2 ^ 24),
                    j * 4 + 1 := of_nat (unat (src ! j) div 2 ^ 16),
                    j * 4 + 2 := of_nat (unat (src ! j) div 2 ^ 8),
                    j * 4 + 3 := of_nat (unat (src ! j))])"
  using assms ucast_drop_bit_unat [of 0 "src ! j"]
  by (simp add: conv32to8_body_def slice_get_ok slice_set_ok ucast_drop_bit_unat)

lemma conv32to8_eq:
  assumes "length dst = 4 * length src"
  shows "conv32to8 dst src = Inr (concat (map word_bytes src))"
proof -
  let ?f = "\<lambda>j s. s[j * 4 := of_nat (unat (src ! j) div 2 ^ 24),
                    j * 4 + 1 := of_nat (unat (src ! j) div 2 ^ 16),
                    j * 4 + 2 := of_nat (unat (src ! j) div 2 ^ 8),
                    j * 4 + 3 := of_nat (unat (src ! j))]"
  have "for_range 0 (length src) (conv32to8_body src) dst = Inr (fold ?f [0..<length src] dst)
        \<and> length (fold ?f [0..<length src] dst) = length dst"
  proof (rule for_range_inv [where I = "\<lambda>j s. length s = length dst"])
    fix j and s :: "byte list"
    assume "j < length src" "length s = length dst"
    then show "conv32to8_body src j s = Inr (?f j s) \<and> length (?f j s) = length dst"
      by (intro conjI conv32to8_body_ok) (simp_all add: assms)
  qed simp_all
  moreover have "fold ?f [0..<length src] dst
      = concat (map (\<lambda>j. [of_nat (unat (src ! j) div 2 ^ 24), of_nat (unat (src ! j) div 2 ^ 16),
                           of_nat (unat (src ! j) div 2 ^ 8), of_nat (unat (src ! j))]) [0..<length src])
        @ drop (4 * length src) dst"
    by (rule fold_update4) (simp add: assms)
  moreover have "map (\<lambda>j. [of_nat (unat (src ! j) div 2 ^ 24), of_nat (unat (src ! j) div 2 ^ 16),
                           of_nat (unat (src ! j) div 2 ^ 8), of_nat (unat (src ! j)) :: byte]) [0..<length src]
                 = map word_bytes src"
    by (rule nth_equalityI) (simp_all add: word_bytes_def)
  ultimately show ?thesis
    using assms by (simp add: conv32to8_def)
qed

lemma length_hInit: "length hInit = 8"
  by (simp add: hInit_def)

lemma chunk_body_block:
  assumes "length h = 8" "i < length data div 64" "length data mod 4 = 0"
  shows "chunk_body (map (word_at data) [0..<length data div 4]) i h
           = Inr (ref_compress h (block_at data i))"
proof -
  let ?d32 = "map (word_at data) [0..<length data div 4]"
  have "length data div 64 = length data div 4 div 16"
    by (simp add: div_mult2_eq [symmetric])
  then have "Suc i \<le> length data div 4 div 16"
    using assms(2) by simp
  then have "Suc i * 16 \<le> length data div 4"
    by (simp only: less_eq_div_iff_mult_less_eq [symmetric] zero_less_numeral)
  then have b: "i * 16 + 16 \<le> length ?d32"
    by simp
  have "map (\<lambda>j. ?d32 ! (i * 16 + j)) [0..<16] = block_at data i"
    unfolding block_at_def using b by (intro map_cong refl) (simp add: mult.commute)
  then show ?thesis
    using chunk_body_ref [OF assms(1) b] by simp
qed

lemma Sha2_256_padded_eq:
  assumes "length data mod 4 = 0"
  shows "Sha2_256_padded data = Inr (concat (map word_bytes (sha_blocks data)))"
proof -
  let ?d32 = "map (word_at data) [0..<length data div 4]"
  let ?f = "\<lambda>i cv. ref_compress cv (block_at data i)"
  have l4: "length data = 4 * (length data div 4)"
    using assms by (simp add: mod_eq_0_iff_dvd)
  have c: "conv8to32 (replicate (length data div 4) 0) data = Inr ?d32"
    using conv8to32_eq [of data "replicate (length data div 4) 0"] l4 by simp
  have n: "length ?d32 div 16 = length data div 64"
    by (simp add: div_mult2_eq [symmetric])
  have "for_range 0 (length data div 64) (chunk_body ?d32) hInit
          = Inr (fold ?f [0..<length data div 64] hInit)
        \<and> length (fold ?f [0..<length data div 64] hInit) = 8"
  proof (rule for_range_inv [where I = "\<lambda>j s. length s = 8"])
    fix j and s :: "u32 list"
    assume "j < length data div 64" "length s = 8"
    then show "chunk_body ?d32 j s = Inr (?f j s) \<and> length (?f j s) = 8"
      using assms by (simp add: chunk_body_block ref_compress_length)
  qed (simp_all add: length_hInit)
  then have l: "for_range 0 (length ?d32 div 16) (chunk_body ?d32) hInit = Inr (sha_blocks data)"
    and 8: "length (sha_blocks data) = 8"
    by (simp_all only: n sha_blocks_def)
  have o: "conv32to8 (replicate Size256 0) (sha_blocks data) = Inr (concat (map word_bytes (sha_blocks data)))"
    by (rule conv32to8_eq) (simp add: 8 Size256_def)
  show ?thesis
    by (simp only: Sha2_256_padded_def c l o rbind_Inr)
qed

lemma Conv32to8_conv32to8: "Conv32to8 = conv32to8"
proof -
  have "Conv32to8_body = conv32to8_body"
    by (intro ext) (simp add: Conv32to8_body_def conv32to8_body_def)
  then show ?thesis
    by (intro ext) (simp add: Conv32to8_def conv32to8_def)
qed

lemma Conv8to32_conv8to32: "Conv8to32 = conv8to32"
proof -
  have "Conv8to32_body = conv8to32_body"
    by (intro ext) (simp add: Conv8to32_body_def conv8to32_body_def)
  then show ?thesis
    by (intro ext) (simp add: Conv8to32_def conv8to32_def)
qed

lemma Add512_extend_body_eq: "Add512_extend_body = extend_body"
  by (intro ext) (simp add: Add512_extend_body_def extend_body_def rRotate_def Let_def)

lemma regs_cases:
  fixes r :: regs
  obtains a b c d e f g h where "r = (a, b, c, d, e, f, g, h)"
proof -
  obtain a b c d e f gh where 1: "r = (a, b, c, d, e, f, gh)"
    by (cases r)
  obtain g h where 2: "gh = (g, h)"
    by (cases gh)
  show thesis
    using 1 2 by (intro that [of a b c d e f g h]) simp
qed

lemma regs_list_length [simp]: "length (regs_list r) = 8"
  by (cases r rule: regs_cases) (simp add: regs_list_def)

lemma regs_list_inverse: "length x = 8 \<Longrightarrow> regs_list (list_regs x) = x"
  by (erule list8) (simp add: regs_list_def list_regs_def)

lemma Add512_round_body_ref:
  "Add512_round_body w i r = Inr (list_regs (ref_round (k ! i, w ! i) (regs_list r)))"
proof -
  obtain a b c d e f g h where r: "r = (a, b, c, d, e, f, g, h)"
    by (rule regs_cases)
  have rot: "\<And>x. RotateLeft32 x (- 2) = word_rotr 2 x" "\<And>x. RotateLeft32 x (- 13) = word_rotr 13 x"
    "\<And>x. RotateLeft32 x (- 22) = word_rotr 22 x" "\<And>x. RotateLeft32 x (- 6) = word_rotr 6 x"
    "\<And>x. RotateLeft32 x (- 11) = word_rotr 11 x" "\<And>x. RotateLeft32 x (- 25) = word_rotr 25 x"
    using rRotate_rotr [of 2] rRotate_rotr [of 13] rRotate_rotr [of 22]
      rRotate_rotr [of 6] rRotate_rotr [of 11] rRotate_rotr [of 25]
    by (simp_all add: rRotate_def)
  show ?thesis
    by (simp add: r Add512_round_body_def ref_round_def regs_list_def list_regs_def Let_def rot
        bsig0_def bsig1_def ch_def maj_def)
qed

lemma fold_regs:
  "regs_list (fold (\<lambda>j r. list_regs (ref_round (k ! j, w ! j) (regs_list r))) js r)
     = fold (\<lambda>j. ref_round (k ! j, w ! j)) js (regs_list r)"
  by (induction js arbitrary: r) (simp_all add: regs_list_inverse)

lemma Add512_rounds_ref:
  assumes "length w = 64"
  shows "\<exists>r. for_range 0 64 (Add512_round_body w) r0 = Inr r
              \<and> regs_list r = fold ref_round (zip k w) (regs_list r0)"
proof -
  let ?f = "\<lambda>j r. list_regs (ref_round (k ! j, w ! j) (regs_list r))"
  have 1: "for_range 0 64 (Add512_round_body w) r0 = Inr (fold ?f [0..<64] r0)"
    by (rule for_range_pure) (rule Add512_round_body_ref)
  have "fold (\<lambda>j. ref_round (k ! j, w ! j)) [0..<64] (regs_list r0) =
        fold ref_round (map (\<lambda>j. (k ! j, w ! j)) [0..<64]) (regs_list r0)"
    by (simp only: fold_map comp_def)
  then have "regs_list (fold ?f [0..<64] r0) = fold ref_round (zip k w) (regs_list r0)"
    by (simp only: fold_regs zip_nth_map [OF length_k assms])
  with 1 show ?thesis by blast
qed

lemma Add512_load_ok:
  assumes "64 \<le> length data" "16 \<le> length w"
  shows "for_range 0 16 (Add512_load_body data) w = Inr (map (word_at data) [0..<16] @ drop 16 w)"
proof -
  have "for_range 0 16 (Add512_load_body data) w =
          Inr (fold (\<lambda>j s. s[j := word_at data j]) [0..<16] w)"
    using assms(1)
    by (intro for_range_pure) (simp add: Add512_load_body_def Let_def slice_get_ok word_at_def)
  then show ?thesis
    using assms(2) by (simp only: fold_update_map)
qed

lemma Add512_ref:
  assumes "length x = 8" "64 \<le> length data"
  shows "Add512 x data = Inr (ref_compress x (map (word_at data) [0..<16]))"
proof -
  let ?m = "map (word_at data) [0..<16]"
  let ?w0 = "replicate 64 (0 :: u32)"
  obtain x0 x1 x2 x3 x4 x5 x6 x7 where x: "x = [x0, x1, x2, x3, x4, x5, x6, x7]"
    using assms(1) by (rule list8)
  have 1: "for_range 0 16 (Add512_load_body data) ?w0 = Inr (?m @ drop 16 ?w0)"
    by (rule Add512_load_ok [OF assms(2)]) simp
  have 2: "for_range 16 64 Add512_extend_body (?m @ drop 16 ?w0) = Inr (ref_schedule ?m)"
    using extend_ref [of "?m @ drop 16 ?w0"] by (simp add: Add512_extend_body_eq)
  obtain r where 3: "for_range 0 64 (Add512_round_body (ref_schedule ?m)) (list_regs x) = Inr r"
    and r: "regs_list r = fold ref_round (zip k (ref_schedule ?m)) (regs_list (list_regs x))"
    using Add512_rounds_ref [of "ref_schedule ?m" "list_regs x"] by auto
  obtain a b c d e f g h where t: "r = (a, b, c, d, e, f, g, h)"
    by (rule regs_cases)
  have "regs_list r = [a, b, c, d, e, f, g, h]"
    by (simp add: t regs_list_def)
  then have r': "fold ref_round (zip k (ref_schedule ?m)) x = [a, b, c, d, e, f, g, h]"
    using r by (simp only: regs_list_inverse [OF assms(1)])
  have "Add512 x data = Inr (map2 (+) x [a, b, c, d, e, f, g, h])"
    apply (simp only: Add512_def Let_def 1 2 rbind_Inr list_regs_def [symmetric])
    apply (simp only: 3 t rbind_Inr prod.case)
    apply (simp add: x)
    done
  then show ?thesis
    by (simp only: ref_compress_def r')
qed

lemma word_at_block:
  assumes "i * 64 + 64 \<le> length data" "j < 16"
  shows "word_at (take 64 (drop (i * 64) data)) j = word_at data (16 * i + j)"
proof -
  have "(i * 64 + j * 4) = (16 * i + j) * 4" by simp
  then show ?thesis
    using assms by (simp add: word_at_def add.assoc mult.commute)
qed

lemma Sha2_256_alt_body_ref:
  assumes "length x = 8" "i < length data div 64"
  shows "Sha2_256_alt_body data i x = Inr (ref_compress x (block_at data i))"
proof -
  have "Suc i \<le> length data div 64"
    using assms(2) by simp
  then have "Suc i * 64 \<le> length data"
    by (simp only: less_eq_div_iff_mult_less_eq [symmetric] zero_less_numeral)
  then have b: "i * 64 + 64 \<le> length data"
    by simp
  have s: "slice_range data (i * 64) (i * 64 + 64) = Inr (take 64 (drop (i * 64) data))"
    using b by (simp add: slice_range_def)
  have m: "map (word_at (take 64 (drop (i * 64) data))) [0..<16] = block_at data i"
    unfolding block_at_def by (intro map_cong refl) (simp add: word_at_block [OF b])
  have "Add512 x (take 64 (drop (i * 64) data))
          = Inr (ref_compress x (map (word_at (take 64 (drop (i * 64) data))) [0..<16]))"
    using b by (intro Add512_ref assms(1)) simp
  then show ?thesis
    by (simp add: Sha2_256_alt_body_def Let_def s m)
qed

lemma Sha2_256_alt_blocks:
  "rbind (for_range 0 (length data div 64) (Sha2_256_alt_body data) hInit) Bytes
     = Inr (concat (map word_bytes (sha_blocks data)))"
proof -
  let ?f = "\<lambda>i cv. ref_compress cv (block_at data i)"
  have "for_range 0 (length data div 64) (Sha2_256_alt_body data) hInit
          = Inr (fold ?f [0..<length data div 64] hInit)
        \<and> length (fold ?f [0..<length data div 64] hInit) = 8"
  proof (rule for_range_inv [where I = "\<lambda>j s. length s = 8"])
    fix j and s :: "u32 list"
    assume "j < length data div 64" "length s = 8"
    then show "Sha2_256_alt_body data j s = Inr (?f j s) \<and> length (?f j s) = 8"
      by (simp add: Sha2_256_alt_body_ref ref_compress_length)
  qed (simp_all add: length_hInit)
  then have l: "for_range 0 (length data div 64) (Sha2_256_alt_body data) hInit = Inr (sha_blocks data)"
    and 8: "length (sha_blocks data) = 8"
    by (simp_all only: sha_blocks_def)
  have "Bytes (sha_blocks data) = Inr (concat (map word_bytes (sha_blocks data)))"
    unfolding Bytes_def Conv32to8_conv32to8 by (rule conv32to8_eq) (simp add: 8 Size256_def)
  then show ?thesis
    by (simp only: l rbind_Inr)
qed

lemma rbind_slice_set_InrE:
  assumes "rbind (slice_set xs i v) f = Inr p"
  obtains xs' where "length xs' = length xs" "f xs' = Inr p"
proof (cases "i < length xs")
  case True
  with assms have "f (xs[i := v]) = Inr p"
    by (simp add: slice_set_def)
  then show thesis
    by (intro that [of "xs[i := v]"]) simp_all
next
  case False
  with assms show thesis
    by (simp add: slice_set_def)
qed

lemma slice_set_length: "slice_set xs i v = Inr p \<Longrightarrow> length p = length xs"
  by (auto simp: slice_set_def split: if_splits)

lemma pad512_length:
  assumes "pad512 d = Inr p"
  shows "length p = length d + pad_count (length d)"
proof -
  from assms show ?thesis
    apply (simp only: pad512_def Let_def unat_pad_any)
    apply (elim rbind_slice_set_InrE)
    apply (drule slice_set_length)
    apply simp
    done
qed

lemma pad_count_multiple: "(n + pad_count n) mod 64 = 0"
proof -
  define q r where "q = n div 64" and "r = n mod 64"
  have n: "n = 64 * q + r" and r: "r < 64"
    by (simp_all add: q_def r_def)
  have "n + pad_count n = 64 * (if 64 - r < 9 then q + 2 else q + 1)"
    unfolding pad_count_def r_def [symmetric] using n r by auto
  then show ?thesis
    by (simp only: mod_mult_self1_is_0)
qed

lemma pad512_length_mod:
  assumes "pad512 d = Inr p"
  shows "length p mod 64 = 0"
  by (simp only: pad512_length [OF assms] pad_count_multiple)

lemma mod64_mod4:
  assumes "n mod 64 = (0 :: nat)"
  shows "n mod 4 = 0"
proof -
  have "(4 :: nat) dvd 64"
    by (rule dvdI [where k = 16]) simp
  moreover have "64 dvd n"
    using assms by (simp only: mod_eq_0_iff_dvd)
  ultimately have "4 dvd n"
    by (rule dvd_trans)
  then show ?thesis
    by (simp only: mod_eq_0_iff_dvd)
qed

lemma unat_end_any:
  fixes p :: u64
  assumes "unat p = P" "Suc j \<le> P"
  shows "unat (of_nat n + p - 1 - of_nat j) = (n + P - 1 - j) mod 2 ^ 64"
proof -
  have p: "p = of_nat P"
    unfolding assms(1) [symmetric] by simp
  have le: "1 + j \<le> n + P"
    using assms(2) by simp
  have "(of_nat ((n + P) - (1 + j)) :: u64) = of_nat (n + P) - of_nat (1 + j)"
    by (rule of_nat_diff [OF le])
  also have "\<dots> = of_nat n + p - 1 - of_nat j"
    by (simp only: p of_nat_add of_nat_1 diff_diff_add)
  finally have "of_nat n + p - 1 - of_nat j = (of_nat (n + P - 1 - j) :: u64)"
    by (simp only: diff_diff_left)
  then show ?thesis
    by (simp only: unat_of_nat) simp
qed

lemma mod_less_sum:
  assumes "Suc j \<le> P"
  shows "(n + P - 1 - j) mod 2 ^ 64 < n + P"
proof -
  have "(n + P - 1 - j) mod 2 ^ 64 \<le> n + P - 1 - j"
    by (rule mod_less_eq_dividend)
  also have "\<dots> < n + P"
    using assms by simp
  finally show ?thesis .
qed

lemma pad512_total: "\<exists>p. pad512 d = Inr p"
proof -
  let ?n = "length d"
  let ?P = "pad_count ?n"
  let ?p = "(if 64 - (of_nat ?n :: u64) mod 64 < 9 then 64 - (of_nat ?n :: u64) mod 64 + 64
               else 64 - (of_nat ?n :: u64) mod 64)"
  have up: "unat ?p = ?P"
    by (rule unat_pad_any)
  have b: "9 \<le> ?P"
    using pad_count_bounds [of ?n] by simp
  have e: "unat (of_nat ?n + ?p - 1 - of_nat j) < ?n + ?P" if "j < 9" for j
  proof -
    have "Suc j \<le> ?P" using that b by simp
    then show ?thesis
      by (simp only: unat_end_any [OF up] mod_less_sum)
  qed
  have e0: "unat (of_nat ?n + ?p - 1 - 0) < ?n + ?P" using e [of 0] by simp
  have e1: "unat (of_nat ?n + ?p - 1 - 1) < ?n + ?P" using e [of 1] by simp
  have e2: "unat (of_nat ?n + ?p - 1 - 2) < ?n + ?P" using e [of 2] by simp
  have e3: "unat (of_nat ?n + ?p - 1 - 3) < ?n + ?P" using e [of 3] by simp
  have e4: "unat (of_nat ?n + ?p - 1 - 4) < ?n + ?P" using e [of 4] by simp
  have e5: "unat (of_nat ?n + ?p - 1 - 5) < ?n + ?P" using e [of 5] by simp
  have e6: "unat (of_nat ?n + ?p - 1 - 6) < ?n + ?P" using e [of 6] by simp
  have e7: "unat (of_nat ?n + ?p - 1 - 7) < ?n + ?P" using e [of 7] by simp
  have "unat (of_nat ?n :: u64) \<le> ?n"
    by (simp add: unat_of_nat)
  then have n: "unat (of_nat ?n :: u64) < ?n + ?P"
    using b by simp
  have ok: "i < length xs \<Longrightarrow> rbind (slice_set xs i v) f = f (xs[i := v])" for i xs v
    and f :: "byte list \<Rightarrow> panic + byte list"
    by (simp add: slice_set_def)
  show ?thesis
    apply (simp only: pad512_def Let_def up)
    apply (subst ok, simp only: length_append length_replicate length_list_update n e0 e1 e2 e3 e4 e5 e6 e7)+
    apply (simp add: slice_set_def e0 [simplified])
    done
qed

lemma fold_compress_length:
  "length cv = 8 \<Longrightarrow> length (fold (\<lambda>i cv. ref_compress cv (B i)) js cv) = 8"
  by (induction js arbitrary: cv) (simp_all add: ref_compress_length)

lemma sha_blocks_length: "length (sha_blocks p) = 8"
  unfolding sha_blocks_def by (rule fold_compress_length) (rule length_hInit)

lemma Sha2_256_total: "\<exists>x. Sha2_256 d = Inr x \<and> length x = 32"
proof -
  obtain p where p: "pad512 d = Inr p"
    using pad512_total by blast
  then have "length p mod 4 = 0"
    by (intro mod64_mod4 pad512_length_mod)
  then have e: "Sha2_256_padded p = Inr (concat (map word_bytes (sha_blocks p)))"
    by (rule Sha2_256_padded_eq)
  have "length (sha_blocks p) = 8"
    by (rule sha_blocks_length)
  then have "length (concat (map word_bytes (sha_blocks p))) = 32"
    by (elim list8) (simp add: word_bytes_def)
  then show ?thesis
    by (simp add: Sha2_256_def p e)
qed

lemma be32_bytes:
  "be32 [b0, b1, b2, b3] =
     push_bit 24 (ucast b0) OR push_bit 16 (ucast b1) OR push_bit 8 (ucast b2) OR ucast b3"
proof -
  let ?A = "push_bit 24 (ucast b0 :: u32)" and ?B = "push_bit 16 (ucast b1 :: u32)"
  let ?C = "push_bit 8 (ucast b2 :: u32)" and ?D = "ucast b3 :: u32"
  have 1: "?C + ?D = ?C OR ?D"
    by (rule disjunctive_add) (auto simp: bit_simps dest: bit_imp_le_length)
  have 2: "?B + (?C OR ?D) = ?B OR (?C OR ?D)"
    by (rule disjunctive_add) (auto simp: bit_simps dest: bit_imp_le_length)
  have 3: "?A + (?B OR (?C OR ?D)) = ?A OR (?B OR (?C OR ?D))"
    by (rule disjunctive_add) (auto simp: bit_simps dest: bit_imp_le_length)
  have "be32 [b0, b1, b2, b3] = ?A + (?B + (?C + ?D))"
    by (simp add: be32_def be_value_def push_bit_eq_mult algebra_simps)
  also have "\<dots> = ?A OR (?B OR (?C OR ?D))"
    by (simp only: 1 2 3)
  finally show ?thesis
    by (simp only: or.assoc)
qed

declare chunks.simps [simp del]

lemma chunks_nil [simp]: "chunks n [] = []"
  by (subst chunks.simps) simp

lemma chunks_step:
  "0 < n \<Longrightarrow> xs \<noteq> [] \<Longrightarrow> chunks n xs = take n xs # chunks n (drop n xs)"
  by (subst chunks.simps) simp

lemma chunks_map:
  assumes "0 < n" "length xs = n * m"
  shows "chunks n xs = map (\<lambda>i. take n (drop (n * i) xs)) [0..<m]"
  using assms(2)
proof (induction m arbitrary: xs)
  case 0
  then show ?case by simp
next
  case (Suc m)
  then have ne: "xs \<noteq> []"
    using assms(1) by auto
  have l: "length (drop n xs) = n * m"
    using Suc.prems by simp
  have "chunks n xs = take n xs # map (\<lambda>i. take n (drop (n * i) (drop n xs))) [0..<m]"
    by (simp only: chunks_step [OF assms(1) ne] Suc.IH [OF l])
  also have "map (\<lambda>i. take n (drop (n * i) (drop n xs))) [0..<m]
             = map (\<lambda>i. take n (drop (n * Suc i) xs)) [0..<m]"
    by (intro map_cong refl) (simp add: add.commute)
  also have "\<dots> = map (\<lambda>i. take n (drop (n * i) xs)) (map Suc [0..<m])"
    by (simp only: map_map comp_def)
  also have "map Suc [0..<m] = [Suc 0..<Suc m]"
    by (rule map_Suc_upt)
  finally have "chunks n xs = map (\<lambda>i. take n (drop (n * i) xs)) (0 # [Suc 0..<Suc m])"
    by simp
  moreover have "0 # [Suc 0..<Suc m] = [0..<Suc m]"
    by (rule upt_conv_Cons [symmetric]) simp
  ultimately show ?case
    by (simp only:)
qed

lemma block_words_at:
  assumes "i * 64 + 64 \<le> length data"
  shows "block_words (take 64 (drop (64 * i) data)) = block_at data i"
proof -
  let ?blk = "take 64 (drop (64 * i) data)"
  have l: "length ?blk = 4 * 16"
    using assms by simp
  have "block_words ?blk = map (\<lambda>j. be32 (take 4 (drop (4 * j) ?blk))) [0..<16]"
    unfolding block_words_def by (simp add: chunks_map [OF _ l] comp_def)
  also have "\<dots> = map (\<lambda>j. word_at ?blk j) [0..<16]"
  proof (intro map_cong refl)
    fix j
    assume "j \<in> set [0..<16]"
    then have j: "j < 16" by simp
    have "length (take 4 (drop (4 * j) ?blk)) = 4"
      using j l by simp
    then obtain a b c d where t: "take 4 (drop (4 * j) ?blk) = [a, b, c, d]"
      by (rule list4)
    have n: "?blk ! (j * 4) = a" "?blk ! (j * 4 + 1) = b" "?blk ! (j * 4 + 2) = c" "?blk ! (j * 4 + 3) = d"
      using arg_cong [OF t, of "\<lambda>xs. xs ! 0"] arg_cong [OF t, of "\<lambda>xs. xs ! 1"]
        arg_cong [OF t, of "\<lambda>xs. xs ! 2"] arg_cong [OF t, of "\<lambda>xs. xs ! 3"] j l
      by (simp_all add: mult.commute)
    show "be32 (take 4 (drop (4 * j) ?blk)) = word_at ?blk j"
      by (simp only: t be32_bytes word_at_def n)
  qed
  also have "\<dots> = block_at data i"
    unfolding block_at_def using assms
    by (intro map_cong refl) (simp add: word_at_block [of i data, unfolded mult.commute [of i 64]])
  finally show ?thesis .
qed

lemma sha_blocks_chunks:
  assumes "length p mod 64 = 0"
  shows "sha_blocks p = fold (\<lambda>blk cv. ref_compress cv (block_words blk)) (chunks 64 p) hInit"
proof -
  have l: "length p = 64 * (length p div 64)"
    using assms by (simp add: mod_eq_0_iff_dvd)
  have "fold (\<lambda>blk cv. ref_compress cv (block_words blk)) (chunks 64 p) hInit
        = fold (\<lambda>i cv. ref_compress cv (block_words (take 64 (drop (64 * i) p)))) [0..<length p div 64] hInit"
    by (simp add: chunks_map [OF _ l] fold_map comp_def)
  also have "\<dots> = fold (\<lambda>i cv. ref_compress cv (block_at p i)) [0..<length p div 64] hInit"
  proof (rule fold_cong [OF refl refl])
    fix i
    assume "i \<in> set [0..<length p div 64]"
    then have "Suc i \<le> length p div 64" by simp
    then have "Suc i * 64 \<le> length p"
      by (simp only: less_eq_div_iff_mult_less_eq [symmetric] zero_less_numeral)
    then have "i * 64 + 64 \<le> length p" by simp
    then show "(\<lambda>cv. ref_compress cv (block_words (take 64 (drop (64 * i) p))))
               = (\<lambda>cv. ref_compress cv (block_at p i))"
      by (simp only: block_words_at)
  qed
  finally show ?thesis
    by (simp only: sha_blocks_def)
qed

lemma ref_pad_eq:
  assumes "length d < 2 ^ 61"
  shows "pad512 d = Inr (ref_pad d)"
  using pad512_eq [OF assms] by (simp only: ref_pad_def pad_zeros_count)

text \<open>
  Claim C4. The two SHA-256 code paths, \<^verbatim>\<open>Sha2_256\<close> of src/sha2/sha2.go and
  \<^verbatim>\<open>Sha2_256\<close> of the second file that hashes block by block with \<^verbatim>\<open>Add512\<close>, return
  the same 32-byte digest for every byte sequence, and neither panics.
\<close>

theorem Sha2_256_paths_agree:
  "Sha2_256 d = Sha2_256_alt d \<and> (\<exists>x. Sha2_256_alt d = Inr x \<and> length x = 32)"
proof -
  have e: "Sha2_256 d = Sha2_256_alt d"
  proof (cases "pad512 d")
    case (Inl e)
    then show ?thesis
      by (simp add: Sha2_256_def Sha2_256_alt_def)
  next
    case (Inr p)
    then have "length p mod 4 = 0"
      by (intro mod64_mod4 pad512_length_mod)
    then have "Sha2_256_padded p = Inr (concat (map word_bytes (sha_blocks p)))"
      by (rule Sha2_256_padded_eq)
    then show ?thesis
      by (simp add: Sha2_256_def Sha2_256_alt_def Inr Sha2_256_alt_blocks)
  qed
  obtain x where "Sha2_256 d = Inr x" "length x = 32"
    using Sha2_256_total by blast
  with e show ?thesis by metis
qed

text \<open>
  Claim C1. For every byte sequence \<open>d\<close> in the domain of SHA-256 (a bit length below
  \<open>2 ^ 64\<close>, which the 8-byte length field can hold), \<^verbatim>\<open>Sha2_256\<close> returns, without a
  panic, the digest that the reference definition \<open>sha256_ref\<close> gives, and it has 32
  bytes. The model is a function, so equal inputs give equal outputs.
\<close>

theorem Sha2_256_reference:
  assumes "8 * length d < 2 ^ 64"
  shows "Sha2_256 d = Inr (sha256_ref d) \<and> length (sha256_ref d) = 32"
proof -
  have len: "length d < 2 ^ 61"
    using assms by simp
  have p: "pad512 d = Inr (ref_pad d)"
    by (rule ref_pad_eq [OF len])
  then have m: "length (ref_pad d) mod 64 = 0"
    by (rule pad512_length_mod)
  then have "Sha2_256_padded (ref_pad d) = Inr (concat (map word_bytes (sha_blocks (ref_pad d))))"
    by (intro Sha2_256_padded_eq mod64_mod4)
  then have e: "Sha2_256 d = Inr (sha256_ref d)"
    by (simp only: Sha2_256_def p rbind_Inr sha256_ref_def sha_blocks_chunks [OF m])
  obtain x where "Sha2_256 d = Inr x" "length x = 32"
    using Sha2_256_total by blast
  with e show ?thesis by simp
qed

theorem Sha2_256_reference_witness:
  "8 * length ([] :: byte list) < (2 :: nat) ^ 64 \<and> Sha2_256 [] = Inr (sha256_ref [])
   \<and> Sha2_256 [0x61, 0x62, 0x63] = Inr (sha256_ref [0x61, 0x62, 0x63])"
  using Sha2_256_reference [of "[]"] Sha2_256_reference [of "[0x61, 0x62, 0x63]"] by simp

section \<open>The digest of the empty input\<close>

lemma empty_pad: "pad512 [] = Inr (0x80 # replicate 63 0)"
  by code_simp

lemma empty_words:
  "conv8to32 (replicate 16 0) (0x80 # replicate 63 0) = Inr (0x80000000 # replicate 15 0)"
  by code_simp

lemma empty_load:
  "for_range 0 16 (load_body (0x80000000 # replicate 15 0) 0) (replicate 64 0)
     = Inr (0x80000000 # replicate 63 0)"
  by code_simp

lemma empty_schedule:
  "for_range 16 64 extend_body (0x80000000 # replicate 63 0)
     = Inr [2147483648, 0, 0, 0, 0, 0, 0, 0, 0, 0, 0, 0, 0, 0, 0, 0, 2147483648,
      0, 2117632, 0, 570427392, 0, 84448578, 2147483648, 1476919296,
      4235264, 1451269, 1711282176, 3592562048, 337794312, 3594910044,
      3374850048, 3287351444, 676112230, 109604294, 2742808854, 1904000662,
      4274181962, 2813755136, 2165675682, 2561075048, 62000258, 1562224585,
      2975250741, 3286092305, 614207615, 3297584367, 1575308336, 3741240933,
      748767245, 1008022316, 30329261, 369937616, 195877528, 907775968,
      3526495142, 43741191, 1967544444, 133517113, 4161330627, 3704256008,
      1581412744, 1153231965, 996066459]"
  by code_simp

lemma empty_rounds:
  "for_range 0 64 (round_body [2147483648, 0, 0, 0, 0, 0, 0, 0, 0, 0, 0, 0, 0, 0, 0, 0, 2147483648,
      0, 2117632, 0, 570427392, 0, 84448578, 2147483648, 1476919296,
      4235264, 1451269, 1711282176, 3592562048, 337794312, 3594910044,
      3374850048, 3287351444, 676112230, 109604294, 2742808854, 1904000662,
      4274181962, 2813755136, 2165675682, 2561075048, 62000258, 1562224585,
      2975250741, 3286092305, 614207615, 3297584367, 1575308336, 3741240933,
      748767245, 1008022316, 30329261, 369937616, 195877528, 907775968,
      3526495142, 43741191, 1967544444, 133517113, 4161330627, 3704256008,
      1581412744, 1153231965, 996066459]) hInit
     = Inr [2040978907, 3717492111, 1586299222, 4095722474, 3600805733,
      3382061760, 2232532848, 477227836]"
  by code_simp

lemma empty_add:
  "for_range 0 8 (add_body [2040978907, 3717492111, 1586299222, 4095722474, 3600805733,
      3382061760, 2232532848, 477227836]) hInit
     = Inr [0xe3b0c442, 0x98fc1c14, 0x9afbf4c8, 0x996fb924, 0x27ae41e4, 0x649b934c, 0xa495991b, 0x7852b855]"
  by code_simp

lemma empty_chunk:
  "chunk_body (0x80000000 # replicate 15 0) 0 hInit
     = Inr [0xe3b0c442, 0x98fc1c14, 0x9afbf4c8, 0x996fb924, 0x27ae41e4, 0x649b934c, 0xa495991b, 0x7852b855]"
  by (simp only: chunk_body_def Let_def empty_load empty_schedule empty_rounds empty_add rbind_Inr)

lemma empty_bytes:
  "conv32to8 (replicate 32 0)
     [0xe3b0c442, 0x98fc1c14, 0x9afbf4c8, 0x996fb924, 0x27ae41e4, 0x649b934c, 0xa495991b, 0x7852b855]
   = Inr ([0xe3, 0xb0, 0xc4, 0x42, 0x98, 0xfc, 0x1c, 0x14] @ [0x9a, 0xfb, 0xf4, 0xc8, 0x99, 0x6f, 0xb9, 0x24] @
          [0x27, 0xae, 0x41, 0xe4, 0x64, 0x9b, 0x93, 0x4c] @ [0xa4, 0x95, 0x99, 0x1b, 0x78, 0x52, 0xb8, 0x55])"
  by code_simp

text \<open>
  Claim C6. \<^verbatim>\<open>Sha2_256\<close> of the empty byte sequence returns the 32 bytes
  e3b0c442 98fc1c14 9afbf4c8 996fb924 27ae41e4 649b934c a495991b 7852b855, the standard
  SHA-256 digest of the empty string.
\<close>

theorem Sha2_256_empty:
  "Sha2_256 [] =
     Inr ([0xe3, 0xb0, 0xc4, 0x42, 0x98, 0xfc, 0x1c, 0x14] @ [0x9a, 0xfb, 0xf4, 0xc8, 0x99, 0x6f, 0xb9, 0x24] @
          [0x27, 0xae, 0x41, 0xe4, 0x64, 0x9b, 0x93, 0x4c] @ [0xa4, 0x95, 0x99, 0x1b, 0x78, 0x52, 0xb8, 0x55])"
proof -
  have l: "length ((0x80 :: byte) # replicate 63 0) div 4 = 16"
    by simp
  have n: "length ((0x80000000 :: u32) # replicate 15 0) div 16 = 1"
    by simp
  have c: "for_range 0 1 (chunk_body (0x80000000 # replicate 15 0)) hInit
       = Inr [0xe3b0c442, 0x98fc1c14, 0x9afbf4c8, 0x996fb924, 0x27ae41e4, 0x649b934c, 0xa495991b, 0x7852b855]"
    by (simp add: for_range_step for_range_done empty_chunk)
  show ?thesis
    by (simp only: Sha2_256_def Sha2_256_padded_def empty_pad rbind_Inr l empty_words n c
        Size256_def empty_bytes)
qed

section \<open>The input buffer of Sha2\_256\<close>

lemma view_length: "slice_ok st s \<Longrightarrow> length (view st s) = s_len s"
  by (auto simp: slice_ok_def view_def)

lemma write_at_eq:
  "i + length vs \<le> length a \<Longrightarrow> write_at a i vs = take i a @ vs @ drop (i + length vs) a"
proof (induction vs arbitrary: a i)
  case Nil
  then show ?case by simp
next
  case (Cons v vs)
  then have "write_at (a[i := v]) (Suc i) vs
             = take (Suc i) (a[i := v]) @ vs @ drop (Suc i + length vs) (a[i := v])"
    by (intro Cons.IH) simp
  also have "take (Suc i) (a[i := v]) = take i a @ [v]"
    using Cons.prems by (simp add: take_Suc_conv_app_nth)
  finally show ?case by simp
qed

lemma append_st_framed:
  assumes "slice_ok st s" "append_st st s zs = (st1, s1)"
  shows "framed st s st1 s1 (view st s @ zs) \<and> s_len s1 = s_len s + length zs"
proof (cases "s_len s + length zs \<le> s_cap s")
  case True
  let ?A = "st ! s_arr s"
  let ?i = "s_off s + s_len s"
  have st1: "st1 = st[s_arr s := write_at ?A ?i zs]" and s1: "s1 = s\<lparr>s_len := s_len s + length zs\<rparr>"
    using assms(2) True by (simp_all add: append_st_def)
  have fit: "?i + length zs \<le> length ?A"
    using assms(1) True by (simp add: slice_ok_def)
  have w: "write_at ?A ?i zs = take ?i ?A @ zs @ drop (?i + length zs) ?A"
    by (rule write_at_eq [OF fit])
  have a: "s_arr s < length st"
    using assms(1) by (simp add: slice_ok_def)
  have n: "st1 ! s_arr s = take ?i ?A @ zs @ drop (?i + length zs) ?A"
    using a by (simp add: st1 w)
  have l: "length (st1 ! s_arr s) = length ?A"
    using fit by (simp add: n)
  have ok: "slice_ok st1 s1"
    using assms(1) True a l by (simp add: slice_ok_def s1 st1)
  have d: "drop (s_off s) (take ?i ?A) = take (s_len s) (drop (s_off s) ?A)"
    by (simp add: drop_take)
  have ld: "length (take (s_len s) (drop (s_off s) ?A)) = s_len s"
    using fit by simp
  have v1: "view st1 s1 = view st s @ zs"
    using fit by (simp add: view_def s1 n d ld)
  have v: "view st1 s = view st s"
    using fit by (simp add: view_def n d ld)
  show ?thesis
    by (simp add: framed_def ok v1 v) (simp add: s1)
next
  case False
  have st1: "st1 = st @ [view st s @ zs]"
    and s1: "s1 = \<lparr>s_arr = length st, s_off = 0, s_len = s_len s + length zs,
                    s_cap = s_len s + length zs\<rparr>"
    using assms(2) False by (simp_all add: append_st_def)
  have a: "s_arr s < length st"
    using assms(1) by (simp add: slice_ok_def)
  have ok: "slice_ok st1 s1"
    using view_length [OF assms(1)] by (simp add: slice_ok_def s1 st1)
  have "view st1 s1 = take (s_len s1) (drop (s_off s1) (st1 ! s_arr s1))"
    by (simp only: view_def)
  then have v1: "view st1 s1 = view st s @ zs"
    using view_length [OF assms(1)] by (simp add: s1 st1)
  have v: "view st1 s = view st s"
    using a by (simp add: view_def st1 nth_append)
  show ?thesis
    using a by (simp add: framed_def ok v1 v) (simp add: s1)
qed

lemma store_set_framed:
  assumes "framed st0 s st s1 xs" "s_len s \<le> i" "i < length xs"
  shows "\<exists>st'. store_set st s1 i v = Inr st' \<and> framed st0 s st' s1 (xs[i := v])"
proof -
  let ?A = "st ! s_arr s1"
  let ?st' = "st[s_arr s1 := ?A[s_off s1 + i := v]]"
  have ok: "slice_ok st s1" and vx: "view st s1 = xs" and v0: "view st s = view st0 s"
    and al: "s_arr s1 \<noteq> s_arr s \<or> s_off s1 = s_off s"
    using assms(1) by (simp_all add: framed_def)
  have lx: "length xs = s_len s1"
    using view_length [OF ok] vx by simp
  have a: "s_arr s1 < length st"
    using ok by (simp add: slice_ok_def)
  have 1: "store_set st s1 i v = Inr ?st'"
    using assms(3) lx by (simp add: store_set_def)
  have ok': "slice_ok ?st' s1"
    using ok by (simp add: slice_ok_def)
  have v1: "view ?st' s1 = xs[i := v]"
    using a vx [symmetric] by (simp add: view_def drop_update_swap take_update_swap)
  have v: "view ?st' s = view st s"
  proof (cases "s_arr s1 = s_arr s")
    case True
    with al have o: "s_off s1 = s_off s" by simp
    have "take (s_len s) (drop (s_off s) (?A[s_off s + i := v])) = take (s_len s) (drop (s_off s) ?A)"
      using assms(2) by (simp add: drop_update_swap take_update_swap list_update_beyond)
    then show ?thesis
      using a True by (simp add: view_def o)
  next
    case False
    then show ?thesis
      by (simp add: view_def)
  qed
  show ?thesis
    using 1 ok' v1 v v0 al by (auto simp: framed_def)
qed

lemma store_set_sim:
  assumes "framed st0 s st s1 xs" "s_len s \<le> i" "i < length xs"
    and "\<And>st'. framed st0 s st' s1 (xs[i := v]) \<Longrightarrow> sim st0 s s1 (F st') (G (xs[i := v]))"
  shows "sim st0 s s1 (rbind (store_set st s1 i v) F) (rbind (slice_set xs i v) G)"
proof -
  obtain st' where 1: "store_set st s1 i v = Inr st'" and 2: "framed st0 s st' s1 (xs[i := v])"
    using store_set_framed [OF assms(1-3)] by blast
  show ?thesis
    using assms(4) [OF 2] by (simp add: 1 slice_set_ok [OF assms(3)])
qed

lemma store_set_sim_last:
  assumes "framed st0 s st s1 xs" "s_len s \<le> i" "i < length xs"
  shows "sim st0 s s1 (rbind (store_set st s1 i v) (\<lambda>st. Inr (st, s1))) (slice_set xs i v)"
proof -
  obtain st' where 1: "store_set st s1 i v = Inr st'" and 2: "framed st0 s st' s1 (xs[i := v])"
    using store_set_framed [OF assms(1-3)] by blast
  show ?thesis
    using 2 by (auto simp: 1 slice_set_ok [OF assms(3)] sim_def)
qed

lemma unat_end63:
  fixes p :: u64
  assumes "n < 2 ^ 63" "unat p = P" "9 \<le> P" "P \<le> 72" "j < 9"
  shows "unat (of_nat n + p - 1 - of_nat j) = n + P - 1 - j"
proof -
  have "n + P - 1 - j < 2 ^ 64"
    using assms by simp
  moreover have "Suc j \<le> P"
    using assms by simp
  ultimately show ?thesis
    by (simp only: unat_end_any [OF assms(2)] mod_less)
qed

lemma pad512_st_sim:
  assumes "slice_ok st s" "s_len s < 2 ^ 63"
  shows "\<exists>s1. sim st s s1 (pad512_st st s) (pad512 (view st s))"
proof -
  let ?n = "s_len s"
  let ?P = "pad_count ?n"
  let ?p = "(if 64 - (of_nat ?n :: u64) mod 64 < 9 then 64 - (of_nat ?n :: u64) mod 64 + 64
               else 64 - (of_nat ?n :: u64) mod 64)"
  have up: "unat ?p = ?P"
    by (rule unat_pad_any)
  have b: "9 \<le> ?P" "?P \<le> 72"
    using pad_count_bounds [of ?n] by simp_all
  have un: "unat (of_nat ?n :: u64) = ?n"
    using assms(2) by (simp add: unat_of_nat)
  have e: "\<And>j. j < 9 \<Longrightarrow> unat (of_nat ?n + ?p - 1 - of_nat j) = ?n + ?P - 1 - j"
    by (rule unat_end63 [OF assms(2) up b])
  have e0: "unat (of_nat ?n + ?p - 1 - 0) = ?n + ?P - 1 - 0" using e [of 0] by simp
  have e1: "unat (of_nat ?n + ?p - 1 - 1) = ?n + ?P - 1 - 1" using e [of 1] by simp
  have e2: "unat (of_nat ?n + ?p - 1 - 2) = ?n + ?P - 1 - 2" using e [of 2] by simp
  have e3: "unat (of_nat ?n + ?p - 1 - 3) = ?n + ?P - 1 - 3" using e [of 3] by simp
  have e4: "unat (of_nat ?n + ?p - 1 - 4) = ?n + ?P - 1 - 4" using e [of 4] by simp
  have e5: "unat (of_nat ?n + ?p - 1 - 5) = ?n + ?P - 1 - 5" using e [of 5] by simp
  have e6: "unat (of_nat ?n + ?p - 1 - 6) = ?n + ?P - 1 - 6" using e [of 6] by simp
  have e7: "unat (of_nat ?n + ?p - 1 - 7) = ?n + ?P - 1 - 7" using e [of 7] by simp
  obtain st1 s1 where ap: "append_st st s (replicate ?P 0) = (st1, s1)"
    by (cases "append_st st s (replicate ?P 0)")
  have f: "framed st s st1 s1 (view st s @ replicate ?P 0)"
    using append_st_framed [OF assms(1) ap] by simp
  have l: "length (view st s) = ?n"
    by (rule view_length [OF assms(1)])
  have "sim st s s1 (pad512_st st s) (pad512 (view st s))"
    apply (simp only: pad512_st_def pad512_def Let_def l up un e0 e1 e2 e3 e4 e5 e6 e7 ap prod.case)
    apply (rule store_set_sim [OF f]; (simp add: l; fail)?)
    using b apply (simp add: l)
    apply (rule store_set_sim, assumption; (use b in \<open>simp add: l\<close>; fail)?)+
    apply (rule store_set_sim_last, assumption; (use b in \<open>simp add: l\<close>; fail)?)
    done
  then show ?thesis ..
qed

text \<open>
  Claim C9. \<^verbatim>\<open>Sha2_256\<close> leaves its input buffer unchanged. For every slice of a
  store (a Go slice: its length is an \<^verbatim>\<open>int\<close>, below \<open>2 ^ 63\<close>), whatever its capacity, the
  call returns, the bytes seen through the caller's slice are the same after the call as
  before, and the digest is the one computed from them. (With spare capacity
  \<^verbatim>\<open>append\<close> writes the padding into the caller's backing array, behind the slice.)
\<close>

theorem Sha2_256_input_unchanged:
  assumes "slice_ok st s" "s_len s < 2 ^ 63"
  shows "\<exists>st' out. Sha2_256_st st s = Inr (st', out) \<and> view st' s = view st s
           \<and> Sha2_256 (view st s) = Inr out"
proof -
  obtain s1 st' ys where 1: "pad512_st st s = Inr (st', s1)" and 2: "pad512 (view st s) = Inr ys"
    and 3: "framed st s st' s1 ys"
    using pad512_st_sim [OF assms] by (auto simp: sim_def)
  obtain out where 4: "Sha2_256 (view st s) = Inr out"
    using Sha2_256_total by blast
  then have 5: "Sha2_256_padded ys = Inr out"
    by (simp add: Sha2_256_def 2)
  have 6: "view st' s1 = ys" and 7: "view st' s = view st s"
    using 3 by (simp_all add: framed_def)
  have "Sha2_256_st st s = Inr (st', out)"
    by (simp add: Sha2_256_st_def 1 5 6)
  with 4 7 show ?thesis by blast
qed

theorem Sha2_256_input_unchanged_witness:
  "slice_ok [[1, 2, 3, 4]] \<lparr>s_arr = 0, s_off = 1, s_len = 2, s_cap = 3\<rparr>
   \<and> s_len \<lparr>s_arr = 0, s_off = 1, s_len = 2, s_cap = 3\<rparr> < 2 ^ 63
   \<and> (\<exists>st' out. Sha2_256_st [[1, 2, 3, 4]] \<lparr>s_arr = 0, s_off = 1, s_len = 2, s_cap = 3\<rparr>
                     = Inr (st', out)
         \<and> view st' \<lparr>s_arr = 0, s_off = 1, s_len = 2, s_cap = 3\<rparr>
             = view [[1, 2, 3, 4]] \<lparr>s_arr = 0, s_off = 1, s_len = 2, s_cap = 3\<rparr>
         \<and> Sha2_256 (view [[1, 2, 3, 4]] \<lparr>s_arr = 0, s_off = 1, s_len = 2, s_cap = 3\<rparr>)
             = Inr out)"
proof -
  let ?s = "\<lparr>s_arr = 0, s_off = 1, s_len = 2, s_cap = 3\<rparr>"
  have a: "slice_ok [[1, 2, 3, 4]] ?s"
    by (simp add: slice_ok_def)
  have b: "s_len ?s < 2 ^ 63"
    by simp
  show ?thesis
    by (intro conjI a b Sha2_256_input_unchanged [OF a b])
qed

section \<open>FromString\<close>

lemma fromHexChar_None: "(fromHexChar c = None) = (\<not> hex_char c)"
proof (cases c)
  case (Char b0 b1 b2 b3 b4 b5 b6 b7)
  show ?thesis
    unfolding Char fromHexChar_def hex_char_def Let_def
    by (cases b0; cases b1; cases b2; cases b3; cases b4; cases b5; cases b6; cases b7) simp_all
qed


lemma DecodeString_ok:
  "even (length s) \<Longrightarrow> list_all hex_char s \<Longrightarrow>
     \<exists>x. DecodeString s = (x, None) \<and> length x = length s div 2"
proof (induction s rule: DecodeString.induct)
  case 1
  then show ?case by simp
next
  case (2 p)
  then show ?case by simp
next
  case (3 p q s)
  from "3.prems" obtain a b where a: "fromHexChar p = Some a" and b: "fromHexChar q = Some b"
    using fromHexChar_None [of p] fromHexChar_None [of q] by auto
  from "3.prems" have "even (length s)" "list_all hex_char s"
    by simp_all
  with "3.IH" [OF a b] obtain x where "DecodeString s = (x, None)" "length x = length s div 2"
    by blast
  then show ?case
    by (simp add: a b)
qed

lemma DecodeString_err:
  "\<not> (even (length s) \<and> list_all hex_char s) \<Longrightarrow> \<exists>x e. DecodeString s = (x, Some e)"
proof (induction s rule: DecodeString.induct)
  case 1
  then show ?case by simp
next
  case (2 p)
  then show ?case by (simp split: option.splits)
next
  case (3 p q s)
  show ?case
  proof (cases "fromHexChar p")
    case None
    then show ?thesis by simp
  next
    case a: (Some a)
    show ?thesis
    proof (cases "fromHexChar q")
      case None
      then show ?thesis by (simp add: a)
    next
      case b: (Some b)
      from a b have "hex_char p" "hex_char q"
        using fromHexChar_None [of p] fromHexChar_None [of q] by auto
      with "3.prems" have "\<not> (even (length s) \<and> list_all hex_char s)"
        by simp
      with "3.IH" [OF a b] obtain x e where "DecodeString s = (x, Some e)"
        by blast
      then show ?thesis
        by (simp add: a b)
    qed
  qed
qed

lemma Conv8to32_eq:
  assumes "length src = 4 * length dst"
  shows "Conv8to32 dst src = Inr (map (word_at src) [0..<length dst])"
  unfolding Conv8to32_conv8to32 by (rule conv8to32_eq [OF assms])

text \<open>
  Claim C7. \<^verbatim>\<open>FromString\<close> returns a digest and no error exactly when the string has 64
  characters, all of them hexadecimal digits (in either case), that is when it decodes
  to exactly 32 bytes. For every other string (another length, or a character that is
  no hexadecimal digit) it returns an error, beside the zero \<^verbatim>\<open>Hash256\<close>.
\<close>

theorem FromString_valid_iff:
  "if length s = 64 \<and> list_all hex_char s
   then \<exists>h. FromString s = Inr (h, None) \<and> length h = 8
   else \<exists>e. FromString s = Inr (replicate 8 0, Some e)"
proof (cases "length s = 64 \<and> list_all hex_char s")
  case True
  then obtain x where x: "DecodeString s = (x, None)" and l: "length x = 32"
    using DecodeString_ok [of s] by auto
  have "Conv8to32 (replicate 8 0) x = Inr (map (word_at x) [0..<8])"
    using Conv8to32_eq [of x "replicate 8 0"] l by simp
  then have "FromString s = Inr (map (word_at x) [0..<8], None)"
    by (simp add: FromString_def x l Size256_def)
  with True show ?thesis by simp
next
  case False
  show ?thesis
  proof (cases "even (length s) \<and> list_all hex_char s")
    case True
    then obtain x where x: "DecodeString s = (x, None)" and l: "length x = length s div 2"
      using DecodeString_ok [of s] by auto
    from True False have "length s \<noteq> 64" by blast
    with True have "length x \<noteq> 32"
      unfolding l by (auto elim: evenE)
    then have "FromString s = Inr (replicate 8 0, Some (ErrorString ''string is not 32 bytes''))"
      by (simp add: FromString_def x Size256_def)
    with False show ?thesis by simp
  next
    case bad: False
    then obtain x e where "DecodeString s = (x, Some e)"
      using DecodeString_err [of s] by blast
    then have "FromString s = Inr (replicate 8 0, Some e)"
      by (simp add: FromString_def)
    with False show ?thesis by simp
  qed
qed

section \<open>Encode\<close>

declare skip_zero.simps [simp del]
declare carry_loop.simps [simp del]
declare digits58.simps [simp del]

lemma skip_zero_eq:
  "i \<le> length xs \<Longrightarrow>
     skip_zero xs i = Inr (i + length (takeWhile (\<lambda>b. b = 0) (drop i xs)))"
proof (induction xs i rule: skip_zero.induct)
  case (1 xs i)
  show ?case
  proof (cases "i < length xs")
    case True
    then have d: "drop i xs = xs ! i # drop (Suc i) xs"
      by (simp add: Cons_nth_drop_Suc)
    show ?thesis
    proof (cases "xs ! i = 0")
      case z: True
      have "skip_zero xs i = skip_zero xs (Suc i)"
        using True z by (subst skip_zero.simps) (simp add: slice_get_ok)
      also have "\<dots> = Inr (Suc i + length (takeWhile (\<lambda>b. b = 0) (drop (Suc i) xs)))"
        using True z by (intro "1.IH" [of "xs ! i"]) (simp_all add: slice_get_ok)
      finally show ?thesis
        by (simp add: d z)
    next
      case nz: False
      have "skip_zero xs i = Inr i"
        using True nz by (subst skip_zero.simps) (simp add: slice_get_ok)
      then show ?thesis
        by (simp add: d nz)
    qed
  next
    case False
    with "1.prems" have "i = length xs" by simp
    then show ?thesis
      by (subst skip_zero.simps) simp
  qed
qed

lemma skip_zero_leading: "skip_zero d 0 = Inr (leading_zeros d)"
  using skip_zero_eq [of 0 d] by (simp add: leading_zeros_def)

lemma leading_zeros_le: "leading_zeros d \<le> length d"
  by (simp add: leading_zeros_def length_takeWhile_le)

lemma int64_id: "0 \<le> x \<Longrightarrow> x < 2 ^ 63 \<Longrightarrow> int64 x = x"
  by (simp add: int64_def)

lemma quo_nonneg: "0 \<le> a \<Longrightarrow> quo a 100 = a div 100"
  by (cases "a = 0") (simp_all add: quo_def)

lemma buffer_size:
  assumes "z \<le> n" "(n - z) * 137 < 2 ^ 63"
  shows "make_bytes (int64 (quo (int64 ((int n - int z) * 137)) 100 + 1))
           = Inr (replicate ((n - z) * 137 div 100 + 1) 0)"
proof -
  let ?m = "(n - z) * 137"
  have a: "(int n - int z) * 137 = int ?m"
    using assms(1) by (simp add: of_nat_diff)
  have b: "int ?m < 2 ^ 63"
    using assms(2) by (metis of_nat_less_iff of_nat_numeral of_nat_power)
  have 1: "int64 (int ?m) = int ?m"
    using b by (intro int64_id) simp_all
  have 2: "quo (int ?m) 100 = int (?m div 100)"
    by (simp add: quo_nonneg zdiv_int)
  have "int (?m div 100) + 1 < 2 ^ 63"
    using b by (simp add: zdiv_int)
  then have 3: "int64 (int (?m div 100) + 1) = int (?m div 100 + 1)"
    by (simp add: int64_id)
  have "make_bytes (int (?m div 100 + 1)) = Inr (replicate (?m div 100 + 1) 0)"
    unfolding make_bytes_def by (simp only: nat_int) simp
  then show ?thesis
    by (simp only: a 1 2 3)
qed

lemma nChars_58: "nChars = 58"
  by (simp add: nChars_def chars_def)

lemma carry_loop_stop:
  "\<not> (j > high \<or> c \<noteq> 0) \<Longrightarrow> carry_loop buf high c j = Inr (buf, c, j)"
  by (subst carry_loop.simps) simp

lemma carry_loop_step:
  assumes "j > high \<or> c \<noteq> 0" "j < length buf"
  shows "carry_loop buf high c j =
           (if j = 0 then Inr (buf[j := of_nat ((c + unat (buf ! j) * 256) mod 58)],
                               (c + unat (buf ! j) * 256) div 58, 0)
            else carry_loop (buf[j := of_nat ((c + unat (buf ! j) * 256) mod 58)]) high
                   ((c + unat (buf ! j) * 256) div 58) (j - 1))"
  using assms
  by (subst carry_loop.simps)
     (simp add: slice_get_ok slice_set_ok Let_def nChars_58 push_bit_eq_mult)

lemma val58_foldl: "foldl (\<lambda>a b. a * 58 + unat b) a xs = a * 58 ^ length xs + val58 xs"
proof (induction xs arbitrary: a)
  case Nil
  then show ?case by (simp add: val58_def)
next
  case (Cons x xs)
  have "foldl (\<lambda>a b. a * 58 + unat b) a (x # xs) = (a * 58 + unat x) * 58 ^ length xs + val58 xs"
    using Cons [of "a * 58 + unat x"] by simp
  moreover have "val58 (x # xs) = unat x * 58 ^ length xs + val58 xs"
    using Cons [of "unat x"] by (simp add: val58_def)
  ultimately show ?case
    by (simp add: add_mult_distrib)
qed

lemma val58_Nil [simp]: "val58 [] = 0"
  by (simp add: val58_def)

lemma val58_snoc [simp]: "val58 (xs @ [b]) = val58 xs * 58 + unat b"
  by (simp add: val58_def)

lemma val58_Cons: "val58 (b # xs) = unat b * 58 ^ length xs + val58 xs"
  using val58_foldl [of "unat b" xs] by (simp add: val58_def)

lemma val58_take_Suc:
  "j < length buf \<Longrightarrow> val58 (take (Suc j) buf) = val58 (take j buf) * 58 + unat (buf ! j)"
  by (simp add: take_Suc_conv_app_nth)

lemma val58_zero: "list_all (\<lambda>b. b = 0) xs \<Longrightarrow> val58 xs = 0"
  by (induction xs rule: rev_induct) simp_all

lemma val58_bound: "list_all (\<lambda>b. unat b < 58) xs \<Longrightarrow> val58 xs < 58 ^ length xs"
proof (induction xs rule: rev_induct)
  case Nil
  then show ?case by simp
next
  case (snoc x xs)
  then have "val58 xs < 58 ^ length xs" "unat x < 58"
    by simp_all
  then have "val58 xs * 58 + unat x < (val58 xs + 1) * 58" "val58 xs + 1 \<le> 58 ^ length xs"
    by simp_all
  then have "val58 xs * 58 + unat x < 58 ^ length xs * 58"
    by (meson less_le_trans mult_le_mono1)
  then show ?case by simp
qed

lemma unat_digit: "unat (of_nat (c mod 58) :: byte) = c mod 58"
proof -
  have "c mod 58 < 2 ^ LENGTH(8)"
    using mod_less_divisor [of 58 c] by simp
  then show ?thesis
    by (simp only: unat_of_nat mod_less)
qed

lemma list_all_update:
  "list_all P xs \<Longrightarrow> P v \<Longrightarrow> list_all P (xs[i := v])"
  using set_update_subset_insert [of xs i v] by (auto simp: list_all_iff)

lemma val58_take_zero:
  assumes "\<forall>i. i \<le> j \<longrightarrow> buf ! i = 0" "j < length buf"
  shows "val58 (take (Suc j) buf) = 0"
proof (rule val58_zero)
  show "list_all (\<lambda>b. b = 0) (take (Suc j) buf)"
    using assms by (simp add: list_all_length)
qed

lemma digit_split: "(c :: nat) div 58 * 58 + c mod 58 = c"
  by simp

lemma carry_loop_correct:
  assumes "j < length buf" and "\<forall>i. i \<le> j \<and> i \<le> high \<longrightarrow> buf ! i = 0"
  shows "\<exists>buf' c' j'. carry_loop buf high c j = Inr (buf', c', j')
     \<and> length buf' = length buf
     \<and> drop (Suc j) buf' = drop (Suc j) buf
     \<and> val58 (take (Suc j) buf') + c' * 58 ^ Suc j = 256 * val58 (take (Suc j) buf) + c
     \<and> (list_all (\<lambda>b. unat b < 58) buf \<longrightarrow> list_all (\<lambda>b. unat b < 58) buf')
     \<and> j' \<le> j
     \<and> (j' = 0 \<or> (c' = 0 \<and> j' \<le> high \<and> (\<forall>i \<le> j'. buf' ! i = 0)))"
  using assms
proof (induction j arbitrary: buf c)
  case 0
  show ?case
  proof (cases "0 > high \<or> c \<noteq> 0")
    case True
    let ?c1 = "c + unat (buf ! 0) * 256"
    let ?buf1 = "buf[0 := of_nat (?c1 mod 58)]"
    have r: "carry_loop buf high c 0 = Inr (?buf1, ?c1 div 58, 0)"
      using carry_loop_step [OF True "0.prems"(1)] by simp
    have t: "take (Suc 0) ?buf1 = [of_nat (?c1 mod 58)]" "take (Suc 0) buf = [buf ! 0]"
      using "0.prems"(1) by (simp_all add: take_Suc_conv_app_nth)
    have v: "val58 (take (Suc 0) ?buf1) + ?c1 div 58 * 58 ^ Suc 0
               = 256 * val58 (take (Suc 0) buf) + c"
      unfolding t using digit_split [of ?c1] by (simp add: val58_Cons unat_digit)
    have d: "list_all (\<lambda>b. unat b < 58) buf \<longrightarrow> list_all (\<lambda>b. unat b < 58) ?buf1"
      by (auto intro!: list_all_update simp: unat_digit)
    show ?thesis
      using v d by (simp add: r)
  next
    case False
    then have c: "c = 0" by simp
    have r: "carry_loop buf high 0 0 = Inr (buf, 0, 0)"
      by (rule carry_loop_stop) simp
    have "buf ! 0 = 0"
      using "0.prems"(2) by simp
    then have "val58 (take (Suc 0) buf) = 0"
      using "0.prems"(1) by (simp add: take_Suc_conv_app_nth val58_Cons)
    then show ?thesis
      unfolding c by (simp add: r)
  qed
next
  case (Suc j)
  show ?case
  proof (cases "Suc j > high \<or> c \<noteq> 0")
    case True
    let ?c1 = "c + unat (buf ! Suc j) * 256"
    let ?d = "of_nat (?c1 mod 58) :: byte"
    let ?buf1 = "buf[Suc j := ?d]"
    have r: "carry_loop buf high c (Suc j) = carry_loop ?buf1 high (?c1 div 58) j"
      using carry_loop_step [OF True Suc.prems(1)] by simp
    have l1: "j < length ?buf1"
      using Suc.prems(1) by simp
    have z1: "\<forall>i. i \<le> j \<and> i \<le> high \<longrightarrow> ?buf1 ! i = 0"
      using Suc.prems(2) by simp
    obtain buf' c' j' where 1: "carry_loop ?buf1 high (?c1 div 58) j = Inr (buf', c', j')"
      and 2: "length buf' = length ?buf1"
      and 3: "drop (Suc j) buf' = drop (Suc j) ?buf1"
      and 4: "val58 (take (Suc j) buf') + c' * 58 ^ Suc j
                = 256 * val58 (take (Suc j) ?buf1) + ?c1 div 58"
      and 5: "list_all (\<lambda>b. unat b < 58) ?buf1 \<longrightarrow> list_all (\<lambda>b. unat b < 58) buf'"
      and 6: "j' \<le> j"
      and 7: "j' = 0 \<or> (c' = 0 \<and> j' \<le> high \<and> (\<forall>i \<le> j'. buf' ! i = 0))"
      using Suc.IH [OF l1 z1, of "?c1 div 58"] by blast
    have l: "length buf' = length buf"
      using 2 by simp
    have "drop (Suc (Suc j)) buf' = drop 1 (drop (Suc j) buf')"
      by simp
    also have "\<dots> = drop 1 (drop (Suc j) ?buf1)"
      by (simp only: 3)
    also have "\<dots> = drop (Suc (Suc j)) buf"
      by simp
    finally have dr: "drop (Suc (Suc j)) buf' = drop (Suc (Suc j)) buf" .
    have "buf' ! Suc j = drop (Suc j) buf' ! 0"
      using Suc.prems(1) l by simp
    also have "\<dots> = drop (Suc j) ?buf1 ! 0"
      by (simp only: 3)
    also have "\<dots> = ?d"
      using Suc.prems(1) by simp
    finally have n: "buf' ! Suc j = ?d" .
    have t1: "take (Suc j) ?buf1 = take (Suc j) buf"
      by simp
    have "val58 (take (Suc (Suc j)) buf') + c' * 58 ^ Suc (Suc j)
            = (val58 (take (Suc j) buf') + c' * 58 ^ Suc j) * 58 + ?c1 mod 58"
      using Suc.prems(1) l by (simp add: val58_take_Suc n unat_digit add_mult_distrib)
    also have "\<dots> = (256 * val58 (take (Suc j) buf) + ?c1 div 58) * 58 + ?c1 mod 58"
      by (simp only: 4 t1)
    also have "\<dots> = 256 * (val58 (take (Suc j) buf) * 58) + (?c1 div 58 * 58 + ?c1 mod 58)"
      by (simp add: add_mult_distrib)
    also have "\<dots> = 256 * (val58 (take (Suc j) buf) * 58) + ?c1"
      by (simp only: digit_split)
    also have "\<dots> = 256 * val58 (take (Suc (Suc j)) buf) + c"
      using Suc.prems(1) by (simp add: val58_take_Suc [of "Suc j"] add_mult_distrib2)
    finally have v: "val58 (take (Suc (Suc j)) buf') + c' * 58 ^ Suc (Suc j)
                       = 256 * val58 (take (Suc (Suc j)) buf) + c" .
    have d: "list_all (\<lambda>b. unat b < 58) buf \<longrightarrow> list_all (\<lambda>b. unat b < 58) buf'"
      using 5 by (auto intro!: list_all_update simp: unat_digit)
    have j: "j' \<le> Suc j"
      using 6 by simp
    show ?thesis
      using 1 l dr v d j 7 by (simp only: r) blast
  next
    case False
    then have c: "c = 0" and h: "Suc j \<le> high" by simp_all
    have r: "carry_loop buf high 0 (Suc j) = Inr (buf, 0, Suc j)"
      using h by (intro carry_loop_stop) simp
    have z: "\<forall>i. i \<le> Suc j \<longrightarrow> buf ! i = 0"
      using Suc.prems(2) h by auto
    then have "val58 (take (Suc (Suc j)) buf) = 0"
      by (rule val58_take_zero) (rule Suc.prems(1))
    then show ?thesis
      unfolding c using z h by (simp add: r)
  qed
qed

lemma for_range_inv_ex:
  assumes "i \<le> b" and "I i s"
    and "\<And>j s. i \<le> j \<Longrightarrow> j < b \<Longrightarrow> I j s \<Longrightarrow> \<exists>s'. body j s = Inr s' \<and> I (Suc j) s'"
  shows "\<exists>s'. for_range i b body s = Inr s' \<and> I b s'"
proof -
  let ?f = "\<lambda>j s. case body j s of Inr s' \<Rightarrow> s' | Inl e \<Rightarrow> s"
  have "for_range i b body s = Inr (fold ?f [i..<b] s) \<and> I b (fold ?f [i..<b] s)"
  proof (rule for_range_inv [OF assms(1), where I = I])
    show "I i s" by (rule assms(2))
  next
    fix j s
    assume "i \<le> j" "j < b" "I j s"
    then obtain s' where "body j s = Inr s'" "I (Suc j) s'"
      using assms(3) by blast
    then show "body j s = Inr (?f j s) \<and> I (Suc j) (?f j s)"
      by simp
  qed
  then show ?thesis by blast
qed

lemma power_key: "(256 :: nat) ^ 100 < 58 ^ 137"
  by simp

lemma cap_bound: "(256 :: nat) ^ m < 58 ^ (m * 137 div 100 + 1)"
proof -
  let ?q = "m * 137 div 100"
  define q r where "q = m * 137 div 100" and "r = m * 137 mod 100"
  have "m * 137 = q * 100 + r" "r < 100"
    by (simp_all add: q_def r_def)
  then have "137 * m < 100 * (q + 1)"
    by (simp add: mult.commute)
  then have lt: "137 * m < 100 * (?q + 1)"
    by (simp only: q_def)
  have "((256 :: nat) ^ m) ^ 100 = (256 ^ 100) ^ m"
    by (simp only: power_mult [symmetric] mult.commute)
  also have "\<dots> \<le> (58 ^ 137) ^ m"
    by (rule power_mono) (simp_all only: less_imp_le [OF power_key] zero_le)
  also have "\<dots> = 58 ^ (137 * m)"
    by (simp only: power_mult)
  also have "\<dots> < 58 ^ (100 * (?q + 1))"
    by (rule power_strict_increasing [OF lt]) simp
  also have "\<dots> = (58 ^ (?q + 1)) ^ 100"
    by (simp only: power_mult [symmetric] mult.commute)
  finally have "((256 :: nat) ^ m) ^ 100 < (58 ^ (?q + 1)) ^ 100" .
  then show ?thesis
    by (rule power_less_imp_less_base) simp
qed

lemma cap_bound_prev:
  assumes "0 < m"
  shows "(256 :: nat) ^ (m - 1) < 58 ^ (m * 137 div 100)"
proof -
  let ?q = "m * 137 div 100"
  have "(256 :: nat) ^ (m - 1) * 58 \<le> 256 ^ (m - 1) * 256"
    by simp
  also have "\<dots> = 256 ^ m"
    using assms by (cases m) simp_all
  also have "\<dots> < 58 ^ (?q + 1)"
    by (rule cap_bound)
  also have "\<dots> = 58 ^ ?q * 58"
    by simp
  finally show ?thesis
    by simp
qed

lemma be_value_snoc [simp]: "be_value (bs @ [b]) = be_value bs * 256 + unat b"
  by (simp add: be_value_def)

lemma be_value_Nil [simp]: "be_value [] = 0"
  by (simp add: be_value_def)

lemma be_value_bound: "be_value bs < 256 ^ length bs"
proof (induction bs rule: rev_induct)
  case Nil
  then show ?case by simp
next
  case (snoc b bs)
  have "unat b < 256"
    using unsigned_less [of b, where ?'a = nat] by simp
  with snoc have "be_value bs * 256 + unat b < (be_value bs + 1) * 256" "be_value bs + 1 \<le> 256 ^ length bs"
    by simp_all
  then have "be_value bs * 256 + unat b < 256 ^ length bs * 256"
    by (meson less_le_trans mult_le_mono1)
  then show ?case by simp
qed

lemma encode_step:
  assumes L: "length buf = L" "0 < L"
    and dg: "list_all (\<lambda>b. unat b < 58) buf"
    and Z: "\<forall>c \<le> high. buf ! c = 0"
    and V: "256 * val58 buf + unat x < 58 ^ L"
  shows "\<exists>buf' c' j'. carry_loop buf high (unat x) (L - 1) = Inr (buf', c', j')
           \<and> length buf' = L \<and> list_all (\<lambda>b. unat b < 58) buf'
           \<and> val58 buf' = 256 * val58 buf + unat x \<and> j' < L
           \<and> (256 * val58 buf + unat x < 58 ^ (L - 1) \<longrightarrow> (\<forall>c \<le> j'. buf' ! c = 0))"
proof -
  have j: "L - 1 < length buf" and S: "Suc (L - 1) = L"
    using L by simp_all
  have z: "\<forall>i. i \<le> L - 1 \<and> i \<le> high \<longrightarrow> buf ! i = 0"
    using Z by simp
  obtain buf' c' j' where 1: "carry_loop buf high (unat x) (L - 1) = Inr (buf', c', j')"
    and 2: "length buf' = length buf"
    and 4: "val58 (take (Suc (L - 1)) buf') + c' * 58 ^ Suc (L - 1)
              = 256 * val58 (take (Suc (L - 1)) buf) + unat x"
    and 5: "list_all (\<lambda>b. unat b < 58) buf \<longrightarrow> list_all (\<lambda>b. unat b < 58) buf'"
    and 6: "j' \<le> L - 1"
    and 7: "j' = 0 \<or> (c' = 0 \<and> j' \<le> high \<and> (\<forall>i \<le> j'. buf' ! i = 0))"
    using carry_loop_correct [OF j z, of "unat x"] by blast
  have l: "length buf' = L"
    using 2 L by simp
  have v: "val58 buf' + c' * 58 ^ L = 256 * val58 buf + unat x"
    using 4 by (simp only: S) (simp add: l L)
  have c0: "c' = 0"
  proof (rule ccontr)
    assume "c' \<noteq> 0"
    then have "(58 :: nat) ^ L \<le> c' * 58 ^ L"
      by simp
    with v V show False
      by simp
  qed
  have v': "val58 buf' = 256 * val58 buf + unat x"
    using v c0 by simp
  have h: "\<forall>c \<le> j'. buf' ! c = 0" if small: "256 * val58 buf + unat x < 58 ^ (L - 1)"
  proof (cases "j' = 0")
    case True
    obtain b0 rest where b: "buf' = b0 # rest"
      using l L(2) by (cases buf') auto
    then have "length rest = L - 1"
      using l by auto
    then have "val58 buf' = unat b0 * 58 ^ (L - 1) + val58 rest"
      by (simp add: b val58_Cons)
    then have "unat b0 * 58 ^ (L - 1) \<le> val58 buf'"
      by simp
    with small v' have "unat b0 * 58 ^ (L - 1) < 58 ^ (L - 1)"
      by linarith
    then have "unat b0 = 0"
      by (cases "unat b0") simp_all
    then have "b0 = 0"
      by (simp add: unat_eq_0)
    then show ?thesis
      using True b by simp
  next
    case False
    with 7 show ?thesis by simp
  qed
  have jl: "j' < L"
    using 6 L(2) by simp
  show ?thesis
    using 1 l 5 dg v' jl h by blast
qed

lemma encode_body_inv:
  assumes "z \<le> i" "i < length d" "L = (length d - z) * 137 div 100 + 1"
    and "encode_inv d z L i s"
  shows "\<exists>s'. encode_body d i s = Inr s' \<and> encode_inv d z L (Suc i) s'"
proof -
  obtain buf high where s: "s = (buf, high)"
    by (cases s)
  let ?m = "length d - z"
  let ?t = "i - z"
  let ?V = "be_value (take ?t (drop z d))"
  have inv: "length buf = L" "list_all (\<lambda>b. unat b < 58) buf" "val58 buf = ?V" "high < L"
    "\<forall>c \<le> high. buf ! c = 0"
    using assms(2,4) by (simp_all add: encode_inv_def s)
  have L0: "0 < L"
    using assms(3) by simp
  have tk: "take (Suc i - z) (drop z d) = take ?t (drop z d) @ [d ! i]"
    using assms(1,2) by (simp add: Suc_diff_le take_Suc_conv_app_nth)
  have V': "be_value (take (Suc i - z) (drop z d)) = 256 * ?V + unat (d ! i)"
    by (simp add: tk)
  have "length (take (Suc i - z) (drop z d)) = Suc ?t"
    using assms(1,2) by (simp add: Suc_diff_le)
  then have lt: "256 * ?V + unat (d ! i) < 256 ^ Suc ?t"
    using be_value_bound [of "take (Suc i - z) (drop z d)"] by (simp only: V')
  have "Suc ?t \<le> ?m"
    using assms(1,2) by simp
  then have "(256 :: nat) ^ Suc ?t \<le> 256 ^ ?m"
    by (intro power_increasing) simp_all
  also have "\<dots> < 58 ^ L"
    unfolding assms(3) by (rule cap_bound)
  finally have cap: "256 * val58 buf + unat (d ! i) < 58 ^ L"
    using lt by (simp add: inv(3))
  obtain buf' c' j' where 1: "carry_loop buf high (unat (d ! i)) (L - 1) = Inr (buf', c', j')"
    and 2: "length buf' = L" "list_all (\<lambda>b. unat b < 58) buf'"
      "val58 buf' = 256 * val58 buf + unat (d ! i)" "j' < L"
    and 3: "256 * val58 buf + unat (d ! i) < 58 ^ (L - 1) \<longrightarrow> (\<forall>c \<le> j'. buf' ! c = 0)"
    using encode_step [OF inv(1) L0 inv(2) inv(5) cap] by blast
  have e: "encode_body d i s = Inr (buf', j')"
    by (simp only: encode_body_def s prod.case slice_get_ok [OF assms(2)] rbind_Inr inv(1) 1)
  have hz: "\<forall>c \<le> j'. buf' ! c = 0" if more: "Suc i < length d"
  proof -
    have m0: "0 < ?m" using assms(1,2) by simp
    have "Suc ?t \<le> ?m - 1"
      using more assms(1) by simp
    then have "(256 :: nat) ^ Suc ?t \<le> 256 ^ (?m - 1)"
      by (intro power_increasing) simp_all
    also have "\<dots> < 58 ^ (?m * 137 div 100)"
      by (rule cap_bound_prev [OF m0])
    also have "\<dots> = 58 ^ (L - 1)"
      by (simp add: assms(3))
    finally have "256 * val58 buf + unat (d ! i) < 58 ^ (L - 1)"
      using lt by (simp add: inv(3))
    with 3 show ?thesis by simp
  qed
  have "encode_inv d z L (Suc i) (buf', j')"
    using 2 hz by (simp add: encode_inv_def V' inv(3))
  with e show ?thesis by blast
qed

lemma encode_inv_init:
  assumes "0 < L"
  shows "encode_inv d z L z (replicate L 0, L - 1)"
proof -
  have "list_all (\<lambda>b. unat b < 58) (replicate L (0 :: byte))"
    by (simp add: list_all_iff)
  moreover have "val58 (replicate L 0) = 0"
    by (rule val58_zero) (simp add: list_all_iff)
  moreover have "\<forall>c \<le> L - 1. replicate L (0 :: byte) ! c = 0"
    using assms by simp
  ultimately show ?thesis
    using assms by (simp add: encode_inv_def)
qed

lemma Encode_digits_correct:
  assumes "(length d - leading_zeros d) * 137 < 2 ^ 63"
  shows "\<exists>buf high. Encode_digits d = Inr (leading_zeros d, buf, high)
           \<and> length buf = (length d - leading_zeros d) * 137 div 100 + 1
           \<and> list_all (\<lambda>b. unat b < 58) buf
           \<and> val58 buf = be_value (drop (leading_zeros d) d)
           \<and> high < length buf"
proof -
  let ?z = "leading_zeros d"
  let ?L = "(length d - ?z) * 137 div 100 + 1"
  have z: "?z \<le> length d"
    by (rule leading_zeros_le)
  have mk: "make_bytes (int64 (quo (int64 ((int (length d) - int ?z) * 137)) 100 + 1))
              = Inr (replicate ?L 0)"
    by (rule buffer_size [OF z assms])
  have init: "encode_inv d ?z ?L ?z (replicate ?L 0, ?L - 1)"
    by (rule encode_inv_init) simp
  have "\<exists>s'. for_range ?z (length d) (encode_body d) (replicate ?L 0, ?L - 1) = Inr s'
            \<and> encode_inv d ?z ?L (length d) s'"
  proof (rule for_range_inv_ex [where I = "encode_inv d ?z ?L"])
    fix j s
    assume "?z \<le> j" "j < length d" "encode_inv d ?z ?L j s"
    then show "\<exists>s'. encode_body d j s = Inr s' \<and> encode_inv d ?z ?L (Suc j) s'"
      by (intro encode_body_inv) simp_all
  qed (rule z, rule init)
  then obtain buf high
    where l: "for_range ?z (length d) (encode_body d) (replicate ?L 0, ?L - 1) = Inr (buf, high)"
      and inv: "encode_inv d ?z ?L (length d) (buf, high)"
    by auto
  have e: "Encode_digits d = Inr (?z, buf, high)"
    by (simp only: Encode_digits_def skip_zero_leading rbind_Inr mk Let_def length_replicate l
        prod.case)
  show ?thesis
    using e inv by (simp add: encode_inv_def)
qed

lemma fold_update_from:
  assumes "z \<le> n" "n \<le> length s"
  shows "fold (\<lambda>j s. s[j := W j]) [z..<n] s = take z s @ map W [z..<n] @ drop n s"
  using assms
proof (induction "n - z" arbitrary: n)
  case 0
  then show ?case by simp
next
  case (Suc k)
  then obtain n' where n: "n = Suc n'" and zn: "z \<le> n'" and k: "k = n' - z"
    by (cases n) auto
  have l: "n' < length s"
    using Suc.prems(2) n by simp
  have "fold (\<lambda>j s. s[j := W j]) [z..<n] s = (take z s @ map W [z..<n'] @ drop n' s)[n' := W n']"
    using Suc.hyps(1) [OF k zn] l zn by (simp add: n)
  also have "\<dots> = take z s @ map W [z..<n'] @ (drop n' s)[0 := W n']"
    using zn l by (simp add: list_update_append)
  also have "(drop n' s)[0 := W n'] = W n' # drop (Suc n') s"
    using l by (cases "drop n' s") (auto simp: drop_Suc [symmetric] Cons_nth_drop_Suc [symmetric])
  finally show ?case
    using zn by (simp add: n)
qed


lemma digits58_0 [simp]: "digits58 0 = []"
  by (subst digits58.simps) simp

lemma digits58_pos: "0 < v \<Longrightarrow> digits58 v = digits58 (v div 58) @ [v mod 58]"
  by (subst digits58.simps) simp

lemma digits58_unique:
  assumes "list_all (\<lambda>b. unat b < 58) xs" "xs = [] \<or> hd xs \<noteq> 0"
  shows "digits58 (val58 xs) = map unat xs"
  using assms
proof (induction xs rule: rev_induct)
  case Nil
  then show ?case by simp
next
  case (snoc x xs)
  have x: "unat x < 58"
    using snoc.prems(1) by simp
  show ?case
  proof (cases "xs = []")
    case True
    with snoc.prems(2) have "x \<noteq> 0" by simp
    then have "0 < unat x"
      by (simp add: unat_gt_0)
    then show ?thesis
      using x True by (simp add: digits58_pos val58_Cons)
  next
    case False
    with snoc.prems have "list_all (\<lambda>b. unat b < 58) xs" "hd xs \<noteq> 0"
      by simp_all
    then have ih: "digits58 (val58 xs) = map unat xs"
      using snoc.IH by simp
    have "val58 xs \<noteq> 0"
    proof
      assume "val58 xs = 0"
      with ih False show False by simp
    qed
    then have "0 < val58 xs * 58 + unat x"
      by simp
    then have "digits58 (val58 xs * 58 + unat x)
                 = digits58 ((val58 xs * 58 + unat x) div 58) @ [(val58 xs * 58 + unat x) mod 58]"
      by (rule digits58_pos)
    then show ?thesis
      using x by (simp add: ih)
  qed
qed

lemma val58_dropWhile: "val58 (dropWhile (\<lambda>b. b = 0) xs) = val58 xs"
  by (induction xs) (simp_all add: val58_Cons)

lemma digits_of_buffer:
  assumes "list_all (\<lambda>b. unat b < 58) buf"
  shows "map unat (dropWhile (\<lambda>b. b = 0) buf) = digits58 (val58 buf)"
proof -
  let ?sig = "dropWhile (\<lambda>b. b = 0) buf"
  have "list_all (\<lambda>b. unat b < 58) ?sig"
    using assms by (auto simp: list_all_iff dest: set_dropWhileD)
  moreover have "?sig = [] \<or> hd ?sig \<noteq> 0"
    using hd_dropWhile [of "\<lambda>b. b = 0" buf] by blast
  ultimately have "digits58 (val58 ?sig) = map unat ?sig"
    by (rule digits58_unique)
  then show ?thesis
    by (simp only: val58_dropWhile)
qed

lemma length_chars: "length chars = 58"
  by (simp add: chars_def)

lemma ones_loop:
  "for_range 0 z ones_body (replicate (z + n) c) = Inr (replicate z CHR ''1'' @ replicate n c)"
proof -
  let ?f = "\<lambda>j s. s[j := CHR ''1'']"
  have "for_range 0 z ones_body (replicate (z + n) c) = Inr (fold ?f [0..<z] (replicate (z + n) c))
        \<and> length (fold ?f [0..<z] (replicate (z + n) c)) = z + n"
    by (rule for_range_inv [where I = "\<lambda>j s. length s = z + n"])
       (simp_all add: ones_body_def slice_set_ok)
  moreover have "fold ?f [0..<z] (replicate (z + n) c)
                 = map (\<lambda>j. CHR ''1'') [0..<z] @ drop z (replicate (z + n) c)"
    by (rule fold_update_map) simp
  moreover have "map (\<lambda>j. CHR ''1'') [0..<z] = replicate z CHR ''1''"
    by (simp add: map_replicate_const)
  ultimately show ?thesis
    by simp
qed

lemma symbols_loop:
  assumes "list_all (\<lambda>b. unat b < 58) sig" "length e = z + length sig"
  shows "for_range z (length e) (symbols_body sig z) e
           = Inr (take z e @ map (\<lambda>x. chars ! unat x) sig)"
proof -
  let ?W = "\<lambda>j. chars ! unat (sig ! (j - z))"
  let ?f = "\<lambda>j s. s[j := ?W j]"
  have "for_range z (length e) (symbols_body sig z) e = Inr (fold ?f [z..<length e] e)
        \<and> length (fold ?f [z..<length e] e) = length e"
  proof (rule for_range_inv [where I = "\<lambda>j s. length s = length e"])
    fix j and s :: string
    assume j: "z \<le> j" "j < length e" and s: "length s = length e"
    have i: "j - z < length sig"
      using j assms(2) by simp
    then have "unat (sig ! (j - z)) < length chars"
      using assms(1) by (simp add: list_all_length length_chars)
    then show "symbols_body sig z j s = Inr (?f j s) \<and> length (?f j s) = length e"
      using i j s by (simp add: symbols_body_def slice_get_ok slice_set_ok)
  qed (simp_all add: assms(2))
  moreover have "fold ?f [z..<length e] e = take z e @ map ?W [z..<length e] @ drop (length e) e"
    by (rule fold_update_from) (simp_all add: assms(2))
  moreover have "map ?W [z..<length e] = map (\<lambda>x. chars ! unat x) sig"
    by (rule nth_equalityI) (simp_all add: assms(2))
  ultimately show ?thesis
    by simp
qed

lemma digits58_value: "foldl (\<lambda>a x. a * 58 + x) 0 (digits58 v) = v"
proof (induction v rule: less_induct)
  case (less n)
  show ?case
  proof (cases "n = 0")
    case True
    then show ?thesis by simp
  next
    case False
    then have d: "digits58 n = digits58 (n div 58) @ [n mod 58]"
      by (intro digits58_pos) simp
    have "n div 58 < n"
      using False by simp
    then have "foldl (\<lambda>a x. a * 58 + x) 0 (digits58 (n div 58)) = n div 58"
      by (rule less.IH)
    then have "foldl (\<lambda>a x. a * 58 + x) 0 (digits58 n) = n div 58 * 58 + n mod 58"
      by (simp only: d foldl_append foldl.simps)
    then show ?thesis
      by (simp only: digit_split)
  qed
qed

lemma digits58_range: "list_all (\<lambda>x. x < 58) (digits58 v)"
proof (induction v rule: less_induct)
  case (less n)
  show ?case
  proof (cases "n = 0")
    case True
    then show ?thesis by simp
  next
    case False
    then have d: "digits58 n = digits58 (n div 58) @ [n mod 58]"
      by (intro digits58_pos) simp
    have "n div 58 < n"
      using False by simp
    then have "list_all (\<lambda>x. x < 58) (digits58 (n div 58))"
      by (rule less.IH)
    moreover have "n mod 58 < 58"
      by simp
    ultimately show ?thesis
      by (simp add: d)
  qed
qed

lemma digits58_empty: "(digits58 v = []) = (v = 0)"
proof (cases "v = 0")
  case True
  then show ?thesis by simp
next
  case False
  then have "digits58 v = digits58 (v div 58) @ [v mod 58]"
    by (intro digits58_pos) simp
  then have "digits58 v \<noteq> []"
    by (simp only:) simp
  with False show ?thesis by simp
qed

lemma digits58_leading: "digits58 v = [] \<or> hd (digits58 v) \<noteq> 0"
proof (induction v rule: less_induct)
  case (less n)
  show ?case
  proof (cases "n = 0")
    case True
    then show ?thesis by simp
  next
    case False
    then have d: "digits58 n = digits58 (n div 58) @ [n mod 58]"
      by (intro digits58_pos) simp
    show ?thesis
    proof (cases "n div 58 = 0")
      case True
      then have "n < 58"
        by (simp add: div_eq_0_iff)
      then have "n mod 58 = n"
        by simp
      then have "digits58 n = [n]"
        using True by (simp only: d) simp
      then show ?thesis
        using False by simp
    next
      case nz: False
      then have ne: "digits58 (n div 58) \<noteq> []"
        by (simp add: digits58_empty)
      have "n div 58 < n"
        using False by simp
      then have "digits58 (n div 58) = [] \<or> hd (digits58 (n div 58)) \<noteq> 0"
        by (rule less.IH)
      with ne have "hd (digits58 (n div 58)) \<noteq> 0"
        by simp
      then have "hd (digits58 n) \<noteq> 0"
        using ne by (simp add: d)
      then show ?thesis by simp
    qed
  qed
qed

lemma Encode_eq_ref:
  assumes "(length d - leading_zeros d) * 137 < 2 ^ 63"
  shows "Encode d = Inr (ref_encode d)"
proof -
  let ?z = "leading_zeros d"
  obtain buf high where e: "Encode_digits d = Inr (?z, buf, high)"
    and dg: "list_all (\<lambda>b. unat b < 58) buf"
    and v: "val58 buf = be_value (drop ?z d)"
    using Encode_digits_correct [OF assms] by blast
  let ?i = "length (takeWhile (\<lambda>b. b = 0) buf)"
  let ?sig = "dropWhile (\<lambda>b. b = 0) buf"
  have sk: "skip_zero buf 0 = Inr ?i"
    using skip_zero_eq [of 0 buf] by simp
  have il: "?i \<le> length buf"
    by (rule length_takeWhile_le)
  have "take (length buf - ?i) (drop ?i buf) = drop ?i buf"
    by simp
  then have sl: "slice_range buf ?i (length buf) = Inr ?sig"
    using il by (simp add: slice_range_def dropWhile_eq_drop)
  have ds: "list_all (\<lambda>b. unat b < 58) ?sig"
    using dg by (auto simp: list_all_iff dest: set_dropWhileD)
  have on: "for_range 0 ?z ones_body (replicate (?z + length ?sig) (CHR 0x00))
              = Inr (replicate ?z CHR ''1'' @ replicate (length ?sig) (CHR 0x00))"
    by (rule ones_loop)
  have sy: "for_range ?z (length (replicate ?z CHR ''1'' @ replicate (length ?sig) (CHR 0x00)))
              (symbols_body ?sig ?z) (replicate ?z CHR ''1'' @ replicate (length ?sig) (CHR 0x00))
            = Inr (take ?z (replicate ?z CHR ''1'' @ replicate (length ?sig) (CHR 0x00))
                   @ map (\<lambda>x. chars ! unat x) ?sig)"
    by (rule symbols_loop [OF ds]) simp
  have "Encode d = Inr (replicate ?z CHR ''1'' @ map (\<lambda>x. chars ! unat x) ?sig)"
    by (simp only: Encode_def e rbind_Inr prod.case sk sl Let_def on sy) simp
  moreover have "map (\<lambda>x. chars ! unat x) ?sig = map (\<lambda>x. chars ! x) (map unat ?sig)"
    by simp
  ultimately show ?thesis
    by (simp only: digits_of_buffer [OF dg] v ref_encode_def)
qed

text \<open>
  Claim C5. The digit buffer of \<open>(len(d) - z) * 137 / 100 + 1\<close> cells that \<^verbatim>\<open>Encode\<close>
  allocates is always sufficient (for every input whose size computation fits Go's 64-bit
  \<^verbatim>\<open>int\<close>): the loops over the input return without an index panic, the buffer keeps the
  length it was allocated with, every cell is a base-58 digit, and the buffer holds exactly
  the value of the input bytes behind the leading zero bytes, so that no carry was dropped
  at the upper end of the buffer.
\<close>

theorem Encode_buffer_sufficient:
  assumes "(length d - leading_zeros d) * 137 < 2 ^ 63"
  shows "\<exists>buf high. Encode_digits d = Inr (leading_zeros d, buf, high)
           \<and> length buf = (length d - leading_zeros d) * 137 div 100 + 1
           \<and> list_all (\<lambda>b. unat b < 58) buf
           \<and> val58 buf = be_value (drop (leading_zeros d) d)
           \<and> high < length buf"
  by (rule Encode_digits_correct [OF assms])

theorem Encode_buffer_sufficient_witness:
  "(length [0, 0x28, 0x7f :: byte] - leading_zeros [0, 0x28, 0x7f]) * 137 < (2 :: nat) ^ 63
   \<and> (\<exists>buf high. Encode_digits [0, 0x28, 0x7f] = Inr (1, buf, high)
         \<and> length buf = 3 \<and> val58 buf = 0x287f)"
proof -
  have z: "leading_zeros [0, 0x28, 0x7f] = 1"
    by (simp add: leading_zeros_def)
  have a: "(length [0, 0x28, 0x7f :: byte] - leading_zeros [0, 0x28, 0x7f]) * 137 < (2 :: nat) ^ 63"
    by (simp add: z)
  show ?thesis
    using a Encode_buffer_sufficient [OF a] by (auto simp: z be_value_def)
qed

text \<open>
  Claim C3. For every byte sequence \<open>d\<close> with \<open>z\<close> leading zero bytes (and a size
  computation that fits Go's 64-bit \<^verbatim>\<open>int\<close>), \<^verbatim>\<open>Encode\<close> returns \<open>z\<close> characters \<open>1\<close>
  followed by the characters of the alphabet for the base-58 digits of the remaining bytes
  read as a big-endian number: most significant first, each below 58, none for the value
  0 and no leading zero digit. The empty sequence gives the empty string, \<open>n\<close> zero bytes
  give \<open>n\<close> characters \<open>1\<close>, and the bytes 00 01 give the string 12.
\<close>

theorem Encode_correct:
  assumes "(length d - leading_zeros d) * 137 < 2 ^ 63"
  shows "Encode d = Inr (replicate (leading_zeros d) CHR ''1'' @
                         map (\<lambda>x. chars ! x) (digits58 (be_value (drop (leading_zeros d) d))))
         \<and> foldl (\<lambda>a x. a * 58 + x) 0 (digits58 (be_value (drop (leading_zeros d) d)))
             = be_value (drop (leading_zeros d) d)
         \<and> list_all (\<lambda>x. x < 58) (digits58 (be_value (drop (leading_zeros d) d)))
         \<and> (digits58 (be_value (drop (leading_zeros d) d)) = []
              \<or> hd (digits58 (be_value (drop (leading_zeros d) d))) \<noteq> 0)
         \<and> Encode [] = Inr []
         \<and> Encode (replicate n 0) = Inr (replicate n CHR ''1'')
         \<and> Encode [0x00, 0x01] = Inr ''12''"
proof -
  have 1: "Encode d = Inr (replicate (leading_zeros d) CHR ''1'' @
                         map (\<lambda>x. chars ! x) (digits58 (be_value (drop (leading_zeros d) d))))"
    using Encode_eq_ref [OF assms] by (simp only: ref_encode_def)
  have 2: "Encode [] = Inr []"
    using Encode_eq_ref [of "[]"] by (simp add: ref_encode_def leading_zeros_def)
  have z: "leading_zeros (replicate n 0) = n"
    by (simp add: leading_zeros_def takeWhile_replicate)
  have 3: "Encode (replicate n 0) = Inr (replicate n CHR ''1'')"
    using Encode_eq_ref [of "replicate n 0"] by (simp add: ref_encode_def z)
  have z1: "leading_zeros [0x00, 0x01] = 1"
    by (simp add: leading_zeros_def)
  have "digits58 1 = [1]"
    using digits58_pos [of 1] by simp
  then have 4: "Encode [0x00, 0x01] = Inr ''12''"
    using Encode_eq_ref [of "[0x00, 0x01]"] by (simp add: ref_encode_def z1 be_value_def chars_def)
  show ?thesis
    by (intro conjI 1 2 3 4 digits58_value digits58_range digits58_leading)
qed

theorem Encode_correct_witness:
  "(length [0, 0x28, 0x7f :: byte] - leading_zeros [0, 0x28, 0x7f]) * 137 < (2 :: nat) ^ 63
   \<and> Encode [0, 0x28, 0x7f] = Inr ''145k''"
proof -
  have z: "leading_zeros [0, 0x28, 0x7f] = 1"
    by (simp add: leading_zeros_def)
  have a: "(length [0, 0x28, 0x7f :: byte] - leading_zeros [0, 0x28, 0x7f]) * 137 < (2 :: nat) ^ 63"
    by (simp add: z)
  have "digits58 3 = [3]"
    using digits58_pos [of 3] by simp
  then have "digits58 178 = [3, 4]"
    using digits58_pos [of 178] by simp
  then have d: "digits58 10367 = [3, 4, 43]"
    using digits58_pos [of 10367] by simp
  show ?thesis
    using a Encode_correct [OF a] by (simp add: z be_value_def d chars_def)
qed

section \<open>Decode\<close>

text \<open>
  Claim C8. \<^verbatim>\<open>Decode\<close> of the empty string returns no data (a nil slice) and an error
  (the one made by \<^verbatim>\<open>errors.New("no input")\<close>).
\<close>

theorem Decode_empty: "Decode [] = (None, Some (ErrorString ''no input''))"
  by (simp add: Decode_def)

text \<open>
  Claim C10. For every non-empty string, whatever its characters, \<^verbatim>\<open>Decode\<close> returns
  a nil slice and a nil error.
\<close>

theorem Decode_nonempty: "s \<noteq> [] \<Longrightarrow> Decode s = (None, None)"
  by (simp add: Decode_def)

theorem Decode_nonempty_witness:
  "''0OIl'' \<noteq> [] \<and> Decode ''0OIl'' = (None, None) \<and> Decode ''12'' = (None, None)"
  using Decode_nonempty [of "''0OIl''"] Decode_nonempty [of "''12''"] by simp

end
